theory Spec2Isabelle
  imports
    Main
    "HOL-Library.Word"
    "HOL-Library.Char_ord"
    "HOL-Library.List_Lexorder"
    "HOL-Library.Product_Lexorder"
    "HOL-Library.Multiset"
begin

section \<open>Token pagination: the cursor codec and the paginator\<close>

text \<open>
  A shallow embedding of \<^verbatim>\<open>repository/record_repository.go\<close>: the continuation-token
  codec (\<^verbatim>\<open>encodeContinuationToken\<close>, \<^verbatim>\<open>decodeContinuationToken\<close>) and the
  paginator (\<^verbatim>\<open>GetPaginated\<close>). Go strings are byte sequences, here \<open>string\<close>
  (a \<open>char list\<close>, one \<open>char\<close> per byte). Go's \<^verbatim>\<open>int\<close> and \<^verbatim>\<open>int64\<close> are
  \<open>64 word\<close>, read as two's complement by \<open>sint\<close>.
\<close>

subsection \<open>Data model\<close>

text \<open>
  \<^verbatim>\<open>time.Time\<close>, as far as the program observes it: the whole seconds since the Unix
  epoch (what \<^verbatim>\<open>Unix()\<close> returns, an \<^verbatim>\<open>int64\<close>) and the nanoseconds within that
  second.
\<close>

record Time =
  unix_sec :: "64 word"
  nsec :: nat

text \<open>\<^verbatim>\<open>t.Unix()\<close> and \<^verbatim>\<open>time.Unix(sec, 0)\<close>.\<close>

definition Unix :: "Time \<Rightarrow> 64 word" where
  "Unix t = unix_sec t"

definition time_Unix :: "64 word \<Rightarrow> Time" where
  "time_Unix s = \<lparr>unix_sec = s, nsec = 0\<rparr>"

record Record =
  ResourceID :: string
  ResourceType :: string
  Context :: "string option"
  CreatedAt :: Time
  UpdatedAt :: Time

record PaginatedResult =
  Records :: "Record list"
  NextContinuationToken :: "string option"

definition DefaultPageSize :: "64 word" where
  "DefaultPageSize = 5"

text \<open>
  The errors \<^verbatim>\<open>decodeContinuationToken\<close> and \<^verbatim>\<open>GetPaginated\<close> return, one constructor
  for each \<^verbatim>\<open>fmt.Errorf\<close> of the source and one for an error handed up from
  \<^verbatim>\<open>database/sql\<close> (a failed \<^verbatim>\<open>Query\<close> or \<^verbatim>\<open>Scan\<close>).
\<close>

datatype error =
    InvalidTokenEncoding     \<comment> \<open>\<^verbatim>\<open>"invalid continuation token: %v"\<close>\<close>
  | InvalidTokenFormat       \<comment> \<open>\<^verbatim>\<open>"invalid continuation token format"\<close>\<close>
  | InvalidTokenTimestamp    \<comment> \<open>\<^verbatim>\<open>"invalid timestamp in token: %v"\<close>\<close>
  | StoreQueryFailed         \<comment> \<open>an error of \<^verbatim>\<open>db.Query\<close> or \<^verbatim>\<open>rows.Scan\<close>\<close>

subsection \<open>Go's \<^verbatim>\<open>base64.URLEncoding\<close>\<close>

text \<open>
  The standard library's URL-safe alphabet with \<^verbatim>\<open>=\<close> padding, in its default
  (non-strict) mode. A 6-bit value is a \<open>nat\<close> below 64.
\<close>

definition encodeURL :: string where
  "encodeURL = ''ABCDEFGHIJKLMNOPQRSTUVWXYZabcdefghijklmnopqrstuvwxyz0123456789-_''"

definition padChar :: char where
  "padChar = CHR ''=''"

text \<open>\<^verbatim>\<open>enc.encode[v]\<close> for a 6-bit \<open>v\<close>.\<close>

definition enc6 :: "nat \<Rightarrow> char" where
  "enc6 v = encodeURL ! (v mod 64)"

text \<open>
  \<^verbatim>\<open>Encode\<close>: every three bytes give the 24-bit value
  \<^verbatim>\<open>src[0]<<16 | src[1]<<8 | src[2]\<close> and four characters; one or two remaining bytes
  give two or three characters and padding.
\<close>

fun EncodeToString :: "string \<Rightarrow> string" where
  "EncodeToString [] = []"
| "EncodeToString [a] =
     (let v = of_char a * 65536
      in [enc6 (v div 262144), enc6 (v div 4096), padChar, padChar])"
| "EncodeToString [a, b] =
     (let v = of_char a * 65536 + of_char b * 256
      in [enc6 (v div 262144), enc6 (v div 4096), enc6 (v div 64), padChar])"
| "EncodeToString (a # b # c # rest) =
     (let v = of_char a * 65536 + of_char b * 256 + of_char c
      in enc6 (v div 262144) # enc6 (v div 4096) # enc6 (v div 64) # enc6 v #
         EncodeToString rest)"

text \<open>\<^verbatim>\<open>enc.decodeMap[c]\<close>: the 6-bit value of an alphabet character, \<open>None\<close> for \<^verbatim>\<open>0xff\<close>.\<close>

definition decodeMap :: "char \<Rightarrow> nat option" where
  "decodeMap c = map_of (zip encodeURL [0 ..< 64]) c"

text \<open>
  The bytes of one quantum: \<^verbatim>\<open>val := d0<<18 | d1<<12 | d2<<6 | d3\<close>, then
  \<^verbatim>\<open>byte(val>>16)\<close>, \<^verbatim>\<open>byte(val>>8)\<close>, \<^verbatim>\<open>byte(val)\<close>, of which \<open>dlen - 1\<close> are kept.
\<close>

definition quantum :: "nat \<Rightarrow> nat \<Rightarrow> nat \<Rightarrow> nat \<Rightarrow> nat" where
  "quantum d0 d1 d2 d3 = d0 * 262144 + d1 * 4096 + d2 * 64 + d3"

definition quantumBytes :: "nat \<Rightarrow> nat \<Rightarrow> string" where
  "quantumBytes n v = take n [char_of (v div 65536), char_of (v div 256), char_of v]"

text \<open>
  \<^verbatim>\<open>Decode\<close> on input without line breaks: quanta of four alphabet characters; the last
  one may end in \<^verbatim>\<open>==\<close> or \<^verbatim>\<open>=\<close>, after which nothing may follow; an unpadded or
  misplaced remainder is a \<^verbatim>\<open>CorruptInputError\<close> (\<open>None\<close>). The bits that padding cuts off
  are not checked (non-strict mode).
\<close>

fun decodeQuanta :: "string \<Rightarrow> string option" where
  "decodeQuanta [] = Some []"
| "decodeQuanta (a # b # c # d # rest) =
     (case (decodeMap a, decodeMap b) of
        (Some d0, Some d1) \<Rightarrow>
          (case decodeMap c of
             Some d2 \<Rightarrow>
               (case decodeMap d of
                  Some d3 \<Rightarrow>
                    (case decodeQuanta rest of
                       Some bs \<Rightarrow> Some (quantumBytes 3 (quantum d0 d1 d2 d3) @ bs)
                     | None \<Rightarrow> None)
                | None \<Rightarrow>
                    if d = padChar \<and> rest = []
                    then Some (quantumBytes 2 (quantum d0 d1 d2 0)) else None)
           | None \<Rightarrow>
               if c = padChar \<and> d = padChar \<and> rest = []
               then Some (quantumBytes 1 (quantum d0 d1 0 0)) else None)
      | _ \<Rightarrow> None)"
| "decodeQuanta _ = None"

text \<open>\<^verbatim>\<open>DecodeString\<close>: carriage returns and line feeds are skipped wherever they stand.\<close>

definition isNewline :: "char \<Rightarrow> bool" where
  "isNewline c = (c = CHR 0x0A \<or> c = CHR 0x0D)"

definition DecodeString :: "string \<Rightarrow> string option" where
  "DecodeString s = decodeQuanta (filter (\<lambda>c. \<not> isNewline c) s)"

subsection \<open>Go's \<^verbatim>\<open>strings.Split\<close>, \<^verbatim>\<open>strconv.ParseInt\<close> and the verb \<^verbatim>\<open>%d\<close>\<close>

text \<open>
  \<^verbatim>\<open>strings.Split(s, sep)\<close> for a separator of one byte: the pieces between the
  separators, one more than there are separators (so \<^verbatim>\<open>[""]\<close> for the empty string).
\<close>

fun Split :: "string \<Rightarrow> char \<Rightarrow> string list" where
  "Split [] sep = [[]]"
| "Split (c # cs) sep =
     (if c = sep then [] # Split cs sep
      else (c # hd (Split cs sep)) # tl (Split cs sep))"

datatype NumError = ErrSyntax | ErrRange

definition isDigit :: "char \<Rightarrow> bool" where
  "isDigit c = (CHR ''0'' \<le> c \<and> c \<le> CHR ''9'')"

text \<open>\<^verbatim>\<open>d = c - '0'\<close> for a digit \<open>c\<close>.\<close>

definition digitVal :: "char \<Rightarrow> nat" where
  "digitVal c = of_char c - 48"

definition maxUint64 :: nat where
  "maxUint64 = 18446744073709551615"

text \<open>
  The loop of \<^verbatim>\<open>strconv.ParseUint(s, 10, 64)\<close>: a byte that is no decimal digit is a
  syntax error (a letter is a digit of value 10 or more, refused for base 10; the
  underscore is accepted for base 0 only); \<^verbatim>\<open>n >= cutoff\<close> with
  \<^verbatim>\<open>cutoff = maxUint64/10 + 1\<close>, and a sum beyond \<^verbatim>\<open>maxUint64\<close>, are range errors.
\<close>

fun ParseUint_loop :: "string \<Rightarrow> nat \<Rightarrow> NumError + nat" where
  "ParseUint_loop [] n = Inr n"
| "ParseUint_loop (c # cs) n =
     (if \<not> isDigit c then Inl ErrSyntax
      else if n \<ge> maxUint64 div 10 + 1 then Inl ErrRange
      else (let n1 = n * 10 + digitVal c
            in if n1 > maxUint64 then Inl ErrRange else ParseUint_loop cs n1))"

definition ParseUint :: "string \<Rightarrow> NumError + nat" where
  "ParseUint s = (if s = [] then Inl ErrSyntax else ParseUint_loop s 0)"

text \<open>
  \<^verbatim>\<open>strconv.ParseInt(s, 10, 64)\<close>: an optional sign, then \<^verbatim>\<open>ParseUint\<close>; the magnitude
  is checked against \<^verbatim>\<open>cutoff = 1 << 63\<close>.
\<close>

definition ParseInt :: "string \<Rightarrow> NumError + 64 word" where
  "ParseInt s =
     (if s = [] then Inl ErrSyntax
      else
        let neg = (hd s = CHR ''-'');
            s1 = (if hd s = CHR ''+'' \<or> hd s = CHR ''-'' then tl s else s)
        in case ParseUint s1 of
             Inl e \<Rightarrow> Inl e
           | Inr un \<Rightarrow>
               if \<not> neg \<and> un \<ge> 2 ^ 63 then Inl ErrRange
               else if neg \<and> un > 2 ^ 63 then Inl ErrRange
               else Inr (if neg then - word_of_nat un else word_of_nat un))"

text \<open>The decimal digits of a natural number, and \<^verbatim>\<open>%d\<close> of an \<^verbatim>\<open>int64\<close>.\<close>

fun digits :: "nat \<Rightarrow> string" where
  "digits n =
     (if n < 10 then [char_of (48 + n)]
      else digits (n div 10) @ [char_of (48 + n mod 10)])"

declare digits.simps [simp del]

definition FormatInt :: "64 word \<Rightarrow> string" where
  "FormatInt i =
     (if sint i < 0 then CHR ''-'' # digits (nat (- sint i)) else digits (nat (sint i)))"

subsection \<open>The cursor codec\<close>

text \<open>
  \<^verbatim>\<open>encodeContinuationToken\<close>:
  \<^verbatim>\<open>fmt.Sprintf("%s|%s|%d", lastResourceType, lastResourceID, lastCreatedAt.Unix())\<close>,
  then \<^verbatim>\<open>base64.URLEncoding.EncodeToString\<close>.
\<close>

definition tokenData :: "string \<Rightarrow> string \<Rightarrow> Time \<Rightarrow> string" where
  "tokenData lastResourceType lastResourceID lastCreatedAt =
     lastResourceType @ ''|'' @ lastResourceID @ ''|'' @ FormatInt (Unix lastCreatedAt)"

definition encodeContinuationToken :: "string \<Rightarrow> string \<Rightarrow> Time \<Rightarrow> string" where
  "encodeContinuationToken lastResourceType lastResourceID lastCreatedAt =
     EncodeToString (tokenData lastResourceType lastResourceID lastCreatedAt)"

text \<open>
  \<^verbatim>\<open>decodeContinuationToken\<close>: the three checks in the order of the source, each with
  its own error.
\<close>

definition decodeContinuationToken :: "string \<Rightarrow> error + (string \<times> string \<times> Time)" where
  "decodeContinuationToken token =
     (case DecodeString token of
        None \<Rightarrow> Inl InvalidTokenEncoding
      | Some decoded \<Rightarrow>
          let parts = Split decoded (CHR ''|'')
          in if length parts \<noteq> 3 then Inl InvalidTokenFormat
             else
               let resourceType = parts ! 0;
                   resourceID = parts ! 1
               in (case ParseInt (parts ! 2) of
                     Inl e \<Rightarrow> Inl InvalidTokenTimestamp
                   | Inr timestamp \<Rightarrow> Inr (resourceType, resourceID, time_Unix timestamp)))"

subsection \<open>Well-formed tokens, stated without the decoder\<close>

text \<open>
  URL-safe base64 with padding, as a shape of the text: groups of four characters of the
  alphabet, of which the last group may end in \<^verbatim>\<open>=\<close> or \<^verbatim>\<open>==\<close>; line breaks do not count.
\<close>

fun validQuanta :: "string \<Rightarrow> bool" where
  "validQuanta [] = True"
| "validQuanta [a, b, c, d] =
     (a \<in> set encodeURL \<and> b \<in> set encodeURL
      \<and> ((c \<in> set encodeURL \<and> (d \<in> set encodeURL \<or> d = padChar))
         \<or> (c = padChar \<and> d = padChar)))"
| "validQuanta (a # b # c # d # rest) =
     (a \<in> set encodeURL \<and> b \<in> set encodeURL \<and> c \<in> set encodeURL \<and> d \<in> set encodeURL
      \<and> validQuanta rest)"
| "validQuanta _ = False"

definition validBase64URL :: "string \<Rightarrow> bool" where
  "validBase64URL token = validQuanta (filter (\<lambda>c. \<not> isNewline c) token)"

text \<open>
  A base-10 integer of 64 bits, as a shape of the text: an optional sign, then one or more
  decimal digits, whose value lies between \<open>- 2 ^ 63\<close> and \<open>2 ^ 63 - 1\<close>.
\<close>

definition decimalValue :: "string \<Rightarrow> nat" where
  "decimalValue ds = foldl (\<lambda>n c. n * 10 + digitVal c) 0 ds"

definition unsignedPart :: "string \<Rightarrow> string" where
  "unsignedPart s = (if s \<noteq> [] \<and> (hd s = CHR ''+'' \<or> hd s = CHR ''-'') then tl s else s)"

definition decimalInt :: "string \<Rightarrow> int" where
  "decimalInt s =
     (if s \<noteq> [] \<and> hd s = CHR ''-'' then - int (decimalValue (unsignedPart s))
      else int (decimalValue (unsignedPart s)))"

definition isDecimalInt64 :: "string \<Rightarrow> bool" where
  "isDecimalInt64 s =
     (unsignedPart s \<noteq> [] \<and> list_all isDigit (unsignedPart s)
      \<and> - (2 ^ 63) \<le> decimalInt s \<and> decimalInt s < 2 ^ 63)"

subsection \<open>The ordering of rows and the seek predicate\<close>

text \<open>
  The store orders and compares rows by the three columns \<^verbatim>\<open>created_at\<close>,
  \<^verbatim>\<open>resource_type\<close>, \<^verbatim>\<open>resource_id\<close>. A timestamp is compared as a point in time
  (seconds, then nanoseconds), a string byte by byte; the order of the triple is the
  lexicographic order that \<open>Product_Lexorder\<close> and \<open>List_Lexorder\<close> give.
\<close>

definition timeKey :: "Time \<Rightarrow> int \<times> nat" where
  "timeKey t = (sint (unix_sec t), nsec t)"

definition key3 :: "Record \<Rightarrow> (int \<times> nat) \<times> string \<times> string" where
  "key3 r = (timeKey (CreatedAt r), ResourceType r, ResourceID r)"

definition cursorKey :: "Time \<Rightarrow> string \<Rightarrow> string \<Rightarrow> (int \<times> nat) \<times> string \<times> string" where
  "cursorKey lastCreatedAt lastResourceType lastResourceID =
     (timeKey lastCreatedAt, lastResourceType, lastResourceID)"

text \<open>
  The three disjuncts of the \<^verbatim>\<open>WHERE\<close> clause of \<^verbatim>\<open>GetPaginated\<close>:
  \<^verbatim>\<open>created_at < ?\<close>, \<^verbatim>\<open>(created_at = ? AND resource_type < ?)\<close> and
  \<^verbatim>\<open>(created_at = ? AND resource_type = ? AND resource_id < ?)\<close>, with the arguments
  \<^verbatim>\<open>lastCreatedAt\<close>, \<^verbatim>\<open>lastResourceType\<close>, \<^verbatim>\<open>lastResourceID\<close> in their places.
\<close>

definition whereBranch1 :: "Record \<Rightarrow> Time \<Rightarrow> bool" where
  "whereBranch1 r lastCreatedAt = (timeKey (CreatedAt r) < timeKey lastCreatedAt)"

definition whereBranch2 :: "Record \<Rightarrow> Time \<Rightarrow> string \<Rightarrow> bool" where
  "whereBranch2 r lastCreatedAt lastResourceType =
     (timeKey (CreatedAt r) = timeKey lastCreatedAt \<and> ResourceType r < lastResourceType)"

definition whereBranch3 :: "Record \<Rightarrow> Time \<Rightarrow> string \<Rightarrow> string \<Rightarrow> bool" where
  "whereBranch3 r lastCreatedAt lastResourceType lastResourceID =
     (timeKey (CreatedAt r) = timeKey lastCreatedAt \<and> ResourceType r = lastResourceType
      \<and> ResourceID r < lastResourceID)"

definition seekWhere :: "Record \<Rightarrow> Time \<Rightarrow> string \<Rightarrow> string \<Rightarrow> bool" where
  "seekWhere r lastCreatedAt lastResourceType lastResourceID =
     (whereBranch1 r lastCreatedAt
      \<or> whereBranch2 r lastCreatedAt lastResourceType
      \<or> whereBranch3 r lastCreatedAt lastResourceType lastResourceID)"

subsection \<open>The paginator\<close>

text \<open>
  The two statements \<^verbatim>\<open>GetPaginated\<close> sends, with their arguments: the first page
  (\<^verbatim>\<open>ORDER BY ... LIMIT ?\<close>) and the page after a cursor
  (\<^verbatim>\<open>WHERE ... ORDER BY ... LIMIT ?\<close>).
\<close>

datatype query =
    SelectFirst (limit: "64 word")
  | SelectAfter Time string string (limit: "64 word")

text \<open>
  What \<^verbatim>\<open>db.Query\<close> answers: an error, or the rows; each row scans into a
  \<^verbatim>\<open>Record\<close> or \<^verbatim>\<open>rows.Scan\<close> fails on it.
\<close>

type_synonym DB = "query \<Rightarrow> error + (error + Record) list"

text \<open>The loop \<^verbatim>\<open>for rows.Next() { ... rows.Scan ... append }\<close>.\<close>

fun scanRows :: "(error + Record) list \<Rightarrow> Record list \<Rightarrow> error + Record list" where
  "scanRows [] records = Inr records"
| "scanRows (row # rows) records =
     (case row of
        Inl err \<Rightarrow> Inl err
      | Inr record \<Rightarrow> scanRows rows (records @ [record]))"

text \<open>
  \<^verbatim>\<open>GetPaginated\<close>. The result is the list of statements sent to the store and the
  returned pair, \<open>Inl err\<close> for \<^verbatim>\<open>(nil, err)\<close>. \<^verbatim>\<open>pageSize + 1\<close> wraps around as Go's
  \<^verbatim>\<open>int\<close> does. Under \<^verbatim>\<open>len(records) > pageSize\<close> with \<^verbatim>\<open>pageSize\<close> positive the
  slice \<^verbatim>\<open>records[:pageSize]\<close> and the index \<^verbatim>\<open>records[pageSize-1]\<close> are in range.
\<close>

definition GetPaginated :: "DB \<Rightarrow> string \<Rightarrow> 64 word \<Rightarrow> query list \<times> (error + PaginatedResult)" where
  "GetPaginated db continuationToken pageSize0 =
     (let pageSize = (if sint pageSize0 \<le> 0 then DefaultPageSize else pageSize0);
          built =
            (if continuationToken = [] then Inr (SelectFirst (pageSize + 1))
             else
               (case decodeContinuationToken continuationToken of
                  Inl err \<Rightarrow> Inl err
                | Inr (lastResourceType, lastResourceID, lastCreatedAt) \<Rightarrow>
                    Inr (SelectAfter lastCreatedAt lastResourceType lastResourceID (pageSize + 1))))
      in case built of
           Inl err \<Rightarrow> ([], Inl err)
         | Inr q \<Rightarrow>
             ([q],
              (case db q of
                 Inl err \<Rightarrow> Inl err
               | Inr rows \<Rightarrow>
                   (case scanRows rows [] of
                      Inl err \<Rightarrow> Inl err
                    | Inr records \<Rightarrow>
                        Inr (if int (length records) > sint pageSize
                             then
                               (let lastRecord = records ! (nat (sint pageSize) - 1)
                                in \<lparr>Records = take (nat (sint pageSize)) records,
                                    NextContinuationToken =
                                      Some (encodeContinuationToken (ResourceType lastRecord)
                                              (ResourceID lastRecord) (CreatedAt lastRecord))\<rparr>)
                             else \<lparr>Records = records, NextContinuationToken = None\<rparr>)))))"

text \<open>
  The page size after the normalisation \<^verbatim>\<open>if pageSize <= 0 { pageSize = DefaultPageSize }\<close>,
  as a number of rows.
\<close>

definition effectivePageSize :: "64 word \<Rightarrow> nat" where
  "effectivePageSize pageSize = (if sint pageSize \<le> 0 then 5 else nat (sint pageSize))"

text \<open>The token that \<^verbatim>\<open>GetPaginated\<close> encodes from a record.\<close>

definition tokenOf :: "Record \<Rightarrow> string" where
  "tokenOf lastRecord =
     encodeContinuationToken (ResourceType lastRecord) (ResourceID lastRecord)
       (CreatedAt lastRecord)"

text \<open>
  The page-boundary decision of \<^verbatim>\<open>GetPaginated\<close> (from \<^verbatim>\<open>result := &PaginatedResult{...}\<close>
  to the \<^verbatim>\<open>return\<close>), as a function of the scanned records and the page size.
\<close>

definition pageOf :: "Record list \<Rightarrow> nat \<Rightarrow> PaginatedResult" where
  "pageOf records n =
     (if length records > n
      then \<lparr>Records = take n records, NextContinuationToken = Some (tokenOf (records ! (n - 1)))\<rparr>
      else \<lparr>Records = records, NextContinuationToken = None\<rparr>)"

subsection \<open>A store that executes the statements on a table\<close>

text \<open>
  The relational store as the two statements use it: the rows of the table
  \<^verbatim>\<open>resource_context\<close> that satisfy the \<^verbatim>\<open>WHERE\<close> clause, in the order
  \<^verbatim>\<open>created_at DESC, resource_type DESC, resource_id DESC\<close>, cut at \<^verbatim>\<open>LIMIT\<close>; every
  row scans. A negative \<^verbatim>\<open>LIMIT\<close> is refused by the store.
\<close>

definition orderDesc :: "Record list \<Rightarrow> Record list" where
  "orderDesc rows = rev (sort_key key3 rows)"

fun matches :: "query \<Rightarrow> Record \<Rightarrow> bool" where
  "matches (SelectFirst n) r = True"
| "matches (SelectAfter lastCreatedAt lastResourceType lastResourceID n) r =
     seekWhere r lastCreatedAt lastResourceType lastResourceID"

definition runQuery :: "Record list \<Rightarrow> DB" where
  "runQuery table q =
     (if sint (limit q) < 0 then Inl StoreQueryFailed
      else Inr (map Inr (take (nat (sint (limit q))) (orderDesc (filter (matches q) table)))))"

text \<open>
  The primary key \<^verbatim>\<open>(resource_type, resource_id)\<close> of \<^verbatim>\<open>CreateTable\<close>.
\<close>

definition primaryKey :: "Record \<Rightarrow> string \<times> string" where
  "primaryKey r = (ResourceType r, ResourceID r)"

text \<open>A row with the given type, identifier and creation time, for concrete instances.\<close>

definition sampleRow :: "string \<Rightarrow> string \<Rightarrow> 64 word \<Rightarrow> nat \<Rightarrow> Record" where
  "sampleRow rt rid s ns =
     \<lparr>ResourceID = rid, ResourceType = rt, Context = None,
      CreatedAt = \<lparr>unix_sec = s, nsec = ns\<rparr>, UpdatedAt = \<lparr>unix_sec = s, nsec = ns\<rparr>\<rparr>"

subsection \<open>A full forward traversal\<close>

text \<open>
  Modelled from the spec: the caller's loop of section 8, which starts with the empty
  token and resubmits each \<^verbatim>\<open>NextContinuationToken\<close> with the same page size until a
  page comes without one, collecting the records of every page. It is no part of the
  repository. The loop need not end, so the result is an \<open>option\<close>.
\<close>

partial_function (option) traverse ::
  "DB \<Rightarrow> 64 word \<Rightarrow> string \<Rightarrow> Record list \<Rightarrow> (error + Record list) option" where
  "traverse db pageSize token seen =
     (case snd (GetPaginated db token pageSize) of
        Inl err \<Rightarrow> Some (Inl err)
      | Inr page \<Rightarrow>
          (case NextContinuationToken page of
             None \<Rightarrow> Some (Inr (seen @ Records page))
           | Some next \<Rightarrow> traverse db pageSize next (seen @ Records page)))"

declare traverse.simps [code]

section \<open>The base64 codec: decoding inverts encoding\<close>

lemma length_encodeURL: "length encodeURL = 64"
  by (simp add: encodeURL_def)

lemma distinct_encodeURL: "distinct encodeURL"
  by (simp add: encodeURL_def)

lemma decodeMap_enc6: "decodeMap (enc6 v) = Some (v mod 64)"
proof -
  have "map_of (zip encodeURL [0 ..< 64]) (encodeURL ! (v mod 64)) = Some ([0 ..< 64] ! (v mod 64))"
    by (rule map_of_zip_nth) (simp_all add: length_encodeURL distinct_encodeURL)
  then show ?thesis
    by (simp add: decodeMap_def enc6_def)
qed

lemma enc6_in_alphabet: "enc6 v \<in> set encodeURL"
  by (simp add: enc6_def length_encodeURL)

lemma decodeMap_Some_iff: "(\<exists>v. decodeMap c = Some v) \<longleftrightarrow> c \<in> set encodeURL"
proof -
  have "(decodeMap c \<noteq> None) \<longleftrightarrow> c \<in> fst ` set (zip encodeURL [0 ..< 64])"
    unfolding decodeMap_def by (simp add: map_of_eq_None_iff)
  also have "fst ` set (zip encodeURL [0 ..< 64]) = set encodeURL"
    by (metis length_encodeURL diff_zero length_upt map_fst_zip set_map)
  finally show ?thesis by auto
qed

lemma padChar_notin: "padChar \<notin> set encodeURL"
  by (simp add: padChar_def encodeURL_def)

lemma newline_notin: "c \<in> set encodeURL \<Longrightarrow> \<not> isNewline c"
  by (auto simp add: isNewline_def encodeURL_def)

lemma decodeMap_padChar: "decodeMap padChar = None"
  using decodeMap_Some_iff [of padChar] padChar_notin by (cases "decodeMap padChar") auto

lemma quantum_sextets:
  assumes "v < 16777216"
  shows "quantum (v div 262144 mod 64) (v div 4096 mod 64) (v div 64 mod 64) (v mod 64) = v"
proof -
  define x where "x = v div 64"
  define y where "y = x div 64"
  define z where "z = y div 64"
  have e1: "v = 64 * x + v mod 64" unfolding x_def by simp
  have e2: "x = 64 * y + x mod 64" unfolding y_def by simp
  have e3: "y = 64 * z + y mod 64" unfolding z_def by simp
  have y: "v div 4096 = y" unfolding y_def x_def by (simp add: div_mult2_eq)
  have z: "v div 262144 = z" unfolding z_def y_def x_def by (simp add: div_mult2_eq)
  have "z < 64" using assms z by simp
  then have zm: "z mod 64 = z" by simp
  have "z * 262144 + (y mod 64) * 4096 + (x mod 64) * 64 + v mod 64 = v"
    using e1 e2 e3 by linarith
  then show ?thesis
    unfolding quantum_def y z zm x_def [symmetric] .
qed

lemma triple_bytes:
  fixes a b c :: nat
  assumes "b < 256" "c < 256"
  shows "(a * 65536 + b * 256 + c) div 65536 = a"
    and "(a * 65536 + b * 256 + c) div 256 mod 256 = b"
    and "(a * 65536 + b * 256 + c) mod 256 = c"
proof -
  define k where "k = b + 256 * a"
  define v where "v = a * 65536 + b * 256 + c"
  have v: "v = c + 256 * k" unfolding v_def k_def by simp
  have d: "v div 256 = k"
    unfolding v using assms(2) by (simp only: div_mult_self2 div_less)
  have "v mod 256 = c"
    unfolding v using assms(2) by (simp only: mod_mult_self2 mod_less)
  then show "(a * 65536 + b * 256 + c) mod 256 = c" unfolding v_def .
  have "v div 256 mod 256 = b"
    unfolding d k_def using assms(1) by (simp only: mod_mult_self2 mod_less)
  then show "(a * 65536 + b * 256 + c) div 256 mod 256 = b" unfolding v_def .
  have "v div 65536 = v div 256 div 256" by (simp add: div_mult2_eq)
  also have "\<dots> = a"
    unfolding d k_def using assms(1) by (simp only: div_mult_self2 div_less)
  finally show "(a * 65536 + b * 256 + c) div 65536 = a" unfolding v_def .
qed

lemma sextet_zero:
  fixes a b :: nat
  shows "(a * 65536) mod 64 = 0" and "(a * 65536) div 64 mod 64 = 0"
    and "(a * 65536 + b * 256) mod 64 = 0"
proof -
  show "(a * 65536) mod 64 = 0" by (simp add: mod_eq_0_iff_dvd)
  show "(a * 65536 + b * 256) mod 64 = 0" by (simp add: mod_eq_0_iff_dvd)
  have "a * 65536 = (a * 1024) * 64" by simp
  then have "(a * 65536) div 64 = a * 1024" by (simp only: nonzero_mult_div_cancel_right)
  then show "(a * 65536) div 64 mod 64 = 0" by (simp add: mod_eq_0_iff_dvd)
qed

lemma triple_less:
  fixes a b c :: nat
  assumes "a < 256" "b < 256" "c < 256"
  shows "a * 65536 + b * 256 + c < 16777216"
  using assms by linarith

lemma quantumBytes_triple:
  "quantumBytes n (of_char a * 65536 + of_char b * 256 + of_char c) = take n [a, b, c]"
proof -
  let ?v = "of_char a * 65536 + of_char b * 256 + of_char c :: nat"
  have "?v div 65536 mod 256 = of_char a" "?v div 256 mod 256 = of_char b" "?v mod 256 = of_char c"
    using triple_bytes [where a = "of_char a" and b = "of_char b" and c = "of_char c"] by simp_all
  then have "char_of (?v div 65536) = a" "char_of (?v div 256) = b" "char_of ?v = c"
    by (simp_all only: char_of_eq_iff take_bit_eq_mod) simp_all
  then show ?thesis
    by (simp only: quantumBytes_def)
qed

lemma decodeQuanta_EncodeToString: "decodeQuanta (EncodeToString s) = Some s"
proof (induction s rule: EncodeToString.induct)
  case 1
  show ?case by simp
next
  case (2 a)
  let ?v = "of_char a * 65536 + 0 * 256 + 0 :: nat"
  have lt: "?v < 16777216" using triple_less [of "of_char a" 0 0] by simp
  have z: "?v div 64 mod 64 = 0" "?v mod 64 = 0" using sextet_zero(1,2) [of "of_char a"] by simp_all
  have "quantum (?v div 262144 mod 64) (?v div 4096 mod 64) 0 0 = ?v"
    using quantum_sextets [OF lt] unfolding z .
  moreover have "quantumBytes 1 ?v = [a]"
    using quantumBytes_triple [of 1 a "char_of (0::nat)" "char_of (0::nat)"] by simp
  ultimately show ?case
    by (simp add: Let_def decodeMap_enc6 decodeMap_padChar)
next
  case (3 a b)
  let ?v = "of_char a * 65536 + of_char b * 256 + 0 :: nat"
  have lt: "?v < 16777216" using triple_less [of "of_char a" "of_char b" 0] by simp
  have z: "?v mod 64 = 0" using sextet_zero(3) [of "of_char a" "of_char b"] by simp
  have "quantum (?v div 262144 mod 64) (?v div 4096 mod 64) (?v div 64 mod 64) 0 = ?v"
    using quantum_sextets [OF lt] unfolding z .
  moreover have "quantumBytes 2 ?v = [a, b]"
    using quantumBytes_triple [of 2 a b "char_of (0::nat)"] by simp
  ultimately show ?case
    by (simp add: Let_def decodeMap_enc6 decodeMap_padChar)
next
  case (4 a b c rest)
  let ?v = "of_char a * 65536 + of_char b * 256 + of_char c :: nat"
  have lt: "?v < 16777216" using triple_less [of "of_char a" "of_char b" "of_char c"] by simp
  have "quantumBytes 3 (quantum (?v div 262144 mod 64) (?v div 4096 mod 64) (?v div 64 mod 64) (?v mod 64)) = [a, b, c]"
    unfolding quantum_sextets [OF lt] using quantumBytes_triple [of 3 a b c] by simp
  with 4 show ?case
    by (simp add: Let_def decodeMap_enc6)
qed

lemma set_EncodeToString: "set (EncodeToString s) \<subseteq> insert padChar (set encodeURL)"
  by (induction s rule: EncodeToString.induct) (simp_all add: Let_def enc6_in_alphabet)

lemma DecodeString_EncodeToString: "DecodeString (EncodeToString s) = Some s"
proof -
  have "\<not> isNewline c" if "c \<in> set (EncodeToString s)" for c
    using that set_EncodeToString [of s] newline_notin [of c]
    by (auto simp add: isNewline_def padChar_def)
  then have "filter (\<lambda>c. \<not> isNewline c) (EncodeToString s) = EncodeToString s"
    by (simp add: filter_id_conv)
  then show ?thesis
    by (simp add: DecodeString_def decodeQuanta_EncodeToString)
qed

lemma EncodeToString_Nil_iff: "EncodeToString s = [] \<longleftrightarrow> s = []"
  by (cases s rule: EncodeToString.cases) (simp_all add: Let_def)

section \<open>Splitting, integers and the cursor codec\<close>

lemma Split_not_Nil: "Split s sep \<noteq> []"
  by (cases s) simp_all

lemma Split_no_sep: "sep \<notin> set s \<Longrightarrow> Split s sep = [s]"
  by (induction s) auto

lemma Split_append_sep: "sep \<notin> set a \<Longrightarrow> Split (a @ sep # b) sep = a # Split b sep"
  by (induction a) auto

lemma length_Split: "length (Split s sep) = Suc (count_list s sep)"
proof (induction s)
  case Nil
  show ?case by simp
next
  case (Cons c cs)
  have "length (tl (Split cs sep)) = count_list cs sep"
    using Cons by simp
  with Cons show ?case by simp
qed

lemma digitVal_char_of: "n < 10 \<Longrightarrow> digitVal (char_of (48 + n)) = n"
  by (simp add: digitVal_def)

lemma isDigit_char_of: "(n::nat) < 10 \<Longrightarrow> isDigit (char_of (48 + n))"
  by (simp add: isDigit_def less_eq_char_def)

lemma digits_isDigit: "c \<in> set (digits n) \<Longrightarrow> isDigit c"
proof (induction n rule: digits.induct)
  case (1 n)
  show ?case
  proof (cases "n < 10")
    case True
    with 1(2) show ?thesis
      by (simp add: digits.simps [of n] isDigit_char_of)
  next
    case False
    with 1 show ?thesis
      by (auto simp add: digits.simps [of n] isDigit_char_of)
  qed
qed

lemma digits_not_Nil: "digits n \<noteq> []"
  by (subst digits.simps) simp

lemma hd_digits_isDigit: "isDigit (hd (digits n))"
  using digits_isDigit [of "hd (digits n)" n] digits_not_Nil [of n] by simp

lemma isDigit_not_sign: "isDigit c \<Longrightarrow> c \<noteq> CHR ''+'' \<and> c \<noteq> CHR ''-'' \<and> c \<noteq> CHR ''|''"
  by (auto simp add: isDigit_def less_eq_char_def)

lemma ParseUint_loop_append:
  "ParseUint_loop (s @ t) n =
     (case ParseUint_loop s n of Inl e \<Rightarrow> Inl e | Inr m \<Rightarrow> ParseUint_loop t m)"
  by (induction s arbitrary: n) (simp_all add: Let_def)

lemma ParseUint_loop_digit:
  assumes "d < 10" "m * 10 + d \<le> maxUint64"
  shows "ParseUint_loop [char_of (48 + d)] m = Inr (m * 10 + d)"
proof -
  have "m \<le> maxUint64 div 10"
    using assms(2) by (metis add_leD1 div_le_mono div_mult_self_is_m zero_less_numeral)
  then have "\<not> m \<ge> maxUint64 div 10 + 1" by simp
  with assms show ?thesis
    by (simp add: isDigit_char_of digitVal_char_of Let_def)
qed

lemma ParseUint_loop_digits: "n \<le> maxUint64 \<Longrightarrow> ParseUint_loop (digits n) 0 = Inr n"
proof (induction n rule: digits.induct)
  case (1 n)
  show ?case
  proof (cases "n < 10")
    case True
    then show ?thesis
      using ParseUint_loop_digit [of n 0] 1(2) by (simp add: digits.simps [of n])
  next
    case False
    have "n div 10 \<le> maxUint64" using 1(2) by (meson div_le_dividend le_trans)
    with 1(1) False have "ParseUint_loop (digits (n div 10)) 0 = Inr (n div 10)" by simp
    moreover have "ParseUint_loop [char_of (48 + n mod 10)] (n div 10) = Inr (n div 10 * 10 + n mod 10)"
      by (rule ParseUint_loop_digit) (use 1(2) in simp_all)
    ultimately show ?thesis
      using False by (simp add: digits.simps [of n] ParseUint_loop_append)
  qed
qed

lemma ParseUint_digits: "n \<le> maxUint64 \<Longrightarrow> ParseUint (digits n) = Inr n"
  by (simp add: ParseUint_def digits_not_Nil ParseUint_loop_digits)

lemma word_of_int_sint_id: "word_of_int (sint w) = (w :: 64 word)"
proof -
  have "(scast w :: 64 word) = word_of_int (sint w)" by (rule scast_eq)
  then show ?thesis by (simp only: scast_id)
qed

lemma two63_le_max: "(2::nat) ^ 63 \<le> maxUint64"
  by (simp add: maxUint64_def)

lemma ParseInt_FormatInt: "ParseInt (FormatInt i) = Inr i"
proof (cases "sint i < 0")
  case True
  define m where "m = nat (- sint i)"
  have "- (2 ^ 63) \<le> sint i" using sint_ge [of i] by simp
  with True have m: "m \<le> 2 ^ 63" "int m = - sint i" unfolding m_def by simp_all
  have "ParseUint (digits m) = Inr m"
    using m(1) two63_le_max by (intro ParseUint_digits) linarith
  moreover have "- (word_of_nat m :: 64 word) = i"
  proof -
    have "- (word_of_nat m :: 64 word) = word_of_int (- int m)" by simp
    then show ?thesis unfolding m(2) by (simp only: minus_minus word_of_int_sint_id)
  qed
  ultimately show ?thesis
    using True m(1) by (simp add: ParseInt_def FormatInt_def m_def [symmetric])
next
  case False
  define m where "m = nat (sint i)"
  have "sint i < 2 ^ 63" using sint_lt [of i] by simp
  with False have m: "m < 2 ^ 63" "int m = sint i" unfolding m_def by simp_all
  have "ParseUint (digits m) = Inr m"
    using m(1) two63_le_max by (intro ParseUint_digits) linarith
  moreover have "(word_of_nat m :: 64 word) = i"
  proof -
    have "(word_of_nat m :: 64 word) = word_of_int (int m)" by simp
    then show ?thesis unfolding m(2) by (simp only: word_of_int_sint_id)
  qed
  moreover have "hd (digits m) \<noteq> CHR ''+''" "hd (digits m) \<noteq> CHR ''-''"
    using hd_digits_isDigit [of m] isDigit_not_sign by blast+
  ultimately show ?thesis
    using False m(1) by (simp add: ParseInt_def FormatInt_def m_def [symmetric] digits_not_Nil)
qed

lemma pipe_notin_FormatInt: "CHR ''|'' \<notin> set (FormatInt i)"
  using digits_isDigit isDigit_not_sign by (auto simp add: FormatInt_def)

lemma Split_tokenData:
  assumes "CHR ''|'' \<notin> set rt" "CHR ''|'' \<notin> set rid"
  shows "Split (tokenData rt rid t) (CHR ''|'') = [rt, rid, FormatInt (Unix t)]"
  using assms pipe_notin_FormatInt [of "Unix t"]
  by (simp add: tokenData_def Split_append_sep Split_no_sep)

lemma decode_encode:
  assumes "CHR ''|'' \<notin> set rt" "CHR ''|'' \<notin> set rid"
  shows "decodeContinuationToken (encodeContinuationToken rt rid t) = Inr (rt, rid, time_Unix (Unix t))"
  using Split_tokenData [OF assms, of t]
  by (simp add: decodeContinuationToken_def encodeContinuationToken_def
      DecodeString_EncodeToString ParseInt_FormatInt)

lemma count_tokenData:
  "count_list (tokenData rt rid t) (CHR ''|'') =
     count_list rt (CHR ''|'') + count_list rid (CHR ''|'') + 2"
proof -
  have "count_list (FormatInt (Unix t)) (CHR ''|'') = 0"
    using pipe_notin_FormatInt by (simp add: count_list_0_iff)
  then show ?thesis by (simp add: tokenData_def)
qed

lemma decode_encode_pipe:
  assumes "CHR ''|'' \<in> set rt \<or> CHR ''|'' \<in> set rid"
  shows "decodeContinuationToken (encodeContinuationToken rt rid t) = Inl InvalidTokenFormat"
proof -
  have "0 < count_list rt (CHR ''|'') + count_list rid (CHR ''|'')"
    using assms by (metis add_gr_0 count_list_0_iff neq0_conv)
  then have "length (Split (tokenData rt rid t) (CHR ''|'')) \<noteq> 3"
    by (simp add: length_Split count_tokenData)
  then show ?thesis
    by (simp add: decodeContinuationToken_def encodeContinuationToken_def
        DecodeString_EncodeToString)
qed

section \<open>The paginator: one call\<close>

lemma scanRows_Inr:
  "scanRows rows acc = Inr records \<Longrightarrow> rows = map Inr (drop (length acc) records) \<and> take (length acc) records = acc"
proof (induction rows arbitrary: acc)
  case Nil
  then show ?case by simp
next
  case (Cons row rows)
  then obtain rcd where row: "row = Inr rcd" and rest: "scanRows rows (acc @ [rcd]) = Inr records"
    by (cases row) simp_all
  from Cons.IH [OF rest] have a: "rows = map Inr (drop (Suc (length acc)) records)"
    and b: "take (Suc (length acc)) records = acc @ [rcd]" by simp_all
  from b have len: "length acc < length records"
    by (metis Suc_le_lessD length_append_singleton length_take min.cobounded1)
  from b len have "records ! length acc = rcd"
    by (metis lessI nth_append_length nth_take)
  with len a b row show ?case
    by (simp add: Cons_nth_drop_Suc [symmetric] take_Suc_conv_app_nth)
qed

lemma scanRows_map_Inr: "scanRows (map Inr rows) acc = Inr (acc @ rows)"
  by (induction rows arbitrary: acc) simp_all

lemma scanRows_length: "scanRows rows [] = Inr records \<Longrightarrow> length records = length rows"
  using scanRows_Inr [of rows "[]" records] by (metis drop0 length_map list.size(3))

lemma sint_DefaultPageSize: "sint DefaultPageSize = 5"
  by (simp add: DefaultPageSize_def)

lemma sint_normalised:
  "sint (if sint pageSize \<le> 0 then DefaultPageSize else pageSize) = int (effectivePageSize pageSize)"
  by (simp add: effectivePageSize_def sint_DefaultPageSize)

lemma effectivePageSize_pos: "0 < effectivePageSize pageSize"
  by (simp add: effectivePageSize_def)

lemma GetPaginated_invalid:
  assumes "tok \<noteq> []" "decodeContinuationToken tok = Inl e"
  shows "GetPaginated db tok ps = ([], Inl e)"
  using assms by (simp add: GetPaginated_def Let_def)

lemma built_page:
  assumes "sint ps' = int n"
  shows "(case scanRows rows [] of
            Inl err \<Rightarrow> Inl err
          | Inr records \<Rightarrow>
              Inr (if int (length records) > sint ps'
                   then
                     (let lastRecord = records ! (nat (sint ps') - 1)
                      in \<lparr>Records = take (nat (sint ps')) records,
                          NextContinuationToken =
                            Some (encodeContinuationToken (ResourceType lastRecord)
                                    (ResourceID lastRecord) (CreatedAt lastRecord))\<rparr>)
                   else \<lparr>Records = records, NextContinuationToken = None\<rparr>))
       = (case scanRows rows [] of Inl err \<Rightarrow> Inl err
          | Inr records \<Rightarrow> Inr (pageOf records n))"
  by (simp add: assms pageOf_def tokenOf_def Let_def split: sum.splits)

lemma GetPaginated_first:
  "GetPaginated db [] ps =
     (let q = SelectFirst ((if sint ps \<le> 0 then DefaultPageSize else ps) + 1)
      in ([q], case db q of Inl err \<Rightarrow> Inl err
               | Inr rows \<Rightarrow> (case scanRows rows [] of Inl err \<Rightarrow> Inl err
                   | Inr records \<Rightarrow> Inr (pageOf records (effectivePageSize ps)))))"
proof -
  define ps' where "ps' = (if sint ps \<le> 0 then DefaultPageSize else ps)"
  have s: "sint ps' = int (effectivePageSize ps)"
    unfolding ps'_def by (rule sint_normalised)
  show ?thesis
    unfolding GetPaginated_def ps'_def [symmetric]
    by (simp add: Let_def built_page [OF s] del: One_nat_def cong: sum.case_cong)
qed

lemma GetPaginated_after:
  assumes "tok \<noteq> []" "decodeContinuationToken tok = Inr (rt, rid, t)"
  shows "GetPaginated db tok ps =
     (let q = SelectAfter t rt rid ((if sint ps \<le> 0 then DefaultPageSize else ps) + 1)
      in ([q], case db q of Inl err \<Rightarrow> Inl err
               | Inr rows \<Rightarrow> (case scanRows rows [] of Inl err \<Rightarrow> Inl err
                   | Inr records \<Rightarrow> Inr (pageOf records (effectivePageSize ps)))))"
proof -
  define ps' where "ps' = (if sint ps \<le> 0 then DefaultPageSize else ps)"
  have s: "sint ps' = int (effectivePageSize ps)"
    unfolding ps'_def by (rule sint_normalised)
  show ?thesis
    unfolding GetPaginated_def ps'_def [symmetric]
    using assms by (simp add: Let_def built_page [OF s] del: One_nat_def cong: sum.case_cong)
qed

lemma GetPaginated_cases:
  obtains (invalid) e where "tok \<noteq> []" "decodeContinuationToken tok = Inl e"
      "GetPaginated db tok ps = ([], Inl e)"
  | (query) q where "limit q = (if sint ps \<le> 0 then DefaultPageSize else ps) + 1"
      "GetPaginated db tok ps =
        ([q], case db q of Inl err \<Rightarrow> Inl err
               | Inr rows \<Rightarrow> (case scanRows rows [] of Inl err \<Rightarrow> Inl err
                   | Inr records \<Rightarrow> Inr (pageOf records (effectivePageSize ps))))"
proof (cases "tok = []")
  case True
  then show ?thesis
    using query [of "SelectFirst ((if sint ps \<le> 0 then DefaultPageSize else ps) + 1)"]
    by (simp add: GetPaginated_first Let_def)
next
  case False
  show ?thesis
  proof (cases "decodeContinuationToken tok")
    case (Inl e)
    with False show ?thesis using invalid GetPaginated_invalid by blast
  next
    case (Inr p)
    obtain rt rid t where "p = (rt, rid, t)" by (cases p) auto
    with Inr False show ?thesis
      using query [of "SelectAfter t rt rid ((if sint ps \<le> 0 then DefaultPageSize else ps) + 1)"]
      by (simp add: GetPaginated_after Let_def)
  qed
qed

lemma GetPaginated_default: "sint ps \<le> 0 \<Longrightarrow> GetPaginated db tok ps = GetPaginated db tok 5"
  by (simp add: GetPaginated_def DefaultPageSize_def)

section \<open>Properties of one call and of the codec\<close>

text \<open>
  Claim C2. A call of \<^verbatim>\<open>GetPaginated\<close> that sends the statement \<open>q\<close> and gets rows
  that all scan: with \<open>N\<close> the effective page size, exactly \<open>N + 1\<close> rows give the first
  \<open>N\<close> rows and a token encoded from the \<open>N\<close>-th row (index \<open>N - 1\<close>, the last one
  kept, not the extra row); \<open>N\<close> rows or fewer give all the rows and no token.
\<close>

theorem C2_overfetch:
  assumes "fst (GetPaginated db tok ps) = [q]" and "db q = Inr (map Inr rows)"
  shows "(length rows = effectivePageSize ps + 1 \<longrightarrow>
            snd (GetPaginated db tok ps) =
              Inr \<lparr>Records = take (effectivePageSize ps) rows,
                   NextContinuationToken =
                     Some (encodeContinuationToken
                             (ResourceType (rows ! (effectivePageSize ps - 1)))
                             (ResourceID (rows ! (effectivePageSize ps - 1)))
                             (CreatedAt (rows ! (effectivePageSize ps - 1))))\<rparr>)
       \<and> (length rows \<le> effectivePageSize ps \<longrightarrow>
            snd (GetPaginated db tok ps) = Inr \<lparr>Records = rows, NextContinuationToken = None\<rparr>)"
proof (cases db tok ps rule: GetPaginated_cases)
  case (invalid e)
  with assms(1) show ?thesis by simp
next
  case (query q')
  with assms(1) have "q' = q" by simp
  with query(2) assms(2)
  have "snd (GetPaginated db tok ps) = Inr (pageOf rows (effectivePageSize ps))"
    by (simp add: scanRows_map_Inr)
  then show ?thesis
    by (simp add: pageOf_def tokenOf_def)
qed

theorem C2_overfetch_witness:
  "fst (GetPaginated (\<lambda>q. Inr [Inr (sampleRow ''user'' ''u2'' 7 0), Inr (sampleRow ''user'' ''u1'' 7 0)]) [] 1)
     = [SelectFirst 2]
   \<and> snd (GetPaginated (\<lambda>q. Inr [Inr (sampleRow ''user'' ''u2'' 7 0), Inr (sampleRow ''user'' ''u1'' 7 0)]) [] 1)
     = Inr \<lparr>Records = [sampleRow ''user'' ''u2'' 7 0],
            NextContinuationToken = Some (tokenOf (sampleRow ''user'' ''u2'' 7 0))\<rparr>"
proof -
  let ?db = "\<lambda>q::query. (Inr [Inr (sampleRow ''user'' ''u2'' 7 0), Inr (sampleRow ''user'' ''u1'' 7 0)] :: error + (error + Record) list)"
  have q: "fst (GetPaginated ?db [] 1) = [SelectFirst 2]"
    by (simp add: GetPaginated_def Let_def)
  have r: "?db (SelectFirst 2) = Inr (map Inr [sampleRow ''user'' ''u2'' 7 0, sampleRow ''user'' ''u1'' 7 0])"
    by simp
  have n: "effectivePageSize 1 = 1"
    by (simp add: effectivePageSize_def)
  from C2_overfetch [OF q r] q show ?thesis
    by (simp add: n tokenOf_def)
qed

text \<open>
  Claim C10. For a store reply of any length \<open>k\<close> and any page size, a successful result
  holds \<open>min k N\<close> records, \<open>N\<close> being the normalised page size, and carries a token
  exactly if \<open>k > N\<close>.
\<close>

theorem C10_page_length:
  assumes "fst (GetPaginated db tok ps) = [q]" and "db q = Inr reply"
    and "snd (GetPaginated db tok ps) = Inr page"
  shows "length (Records page) = min (length reply) (effectivePageSize ps)
       \<and> (NextContinuationToken page \<noteq> None \<longleftrightarrow> length reply > effectivePageSize ps)"
proof (cases db tok ps rule: GetPaginated_cases)
  case (invalid e)
  with assms(1) show ?thesis by simp
next
  case (query q')
  with assms(1) have "q' = q" by simp
  with query(2) assms(2,3) obtain records where
    scan: "scanRows reply [] = Inr records" and page: "page = pageOf records (effectivePageSize ps)"
    by (cases "scanRows reply []") auto
  from scan have "length records = length reply" by (rule scanRows_length)
  with page show ?thesis
    by (simp add: pageOf_def)
qed

theorem C10_page_length_witness:
  "fst (GetPaginated (\<lambda>q. Inr [Inr (sampleRow ''user'' ''u2'' 7 0), Inr (sampleRow ''user'' ''u1'' 7 0)]) [] 3)
     = [SelectFirst 4]
   \<and> snd (GetPaginated (\<lambda>q. Inr [Inr (sampleRow ''user'' ''u2'' 7 0), Inr (sampleRow ''user'' ''u1'' 7 0)]) [] 3)
     = Inr \<lparr>Records = [sampleRow ''user'' ''u2'' 7 0, sampleRow ''user'' ''u1'' 7 0],
            NextContinuationToken = None\<rparr>
   \<and> length (Records \<lparr>Records = [sampleRow ''user'' ''u2'' 7 0, sampleRow ''user'' ''u1'' 7 0],
                       NextContinuationToken = None\<rparr>)
     = min (length [Inr (sampleRow ''user'' ''u2'' 7 0) :: error + Record,
                    Inr (sampleRow ''user'' ''u1'' 7 0)]) (effectivePageSize 3)"
proof -
  let ?db = "\<lambda>q::query. (Inr [Inr (sampleRow ''user'' ''u2'' 7 0), Inr (sampleRow ''user'' ''u1'' 7 0)] :: error + (error + Record) list)"
  let ?page = "\<lparr>Records = [sampleRow ''user'' ''u2'' 7 0, sampleRow ''user'' ''u1'' 7 0],
                       NextContinuationToken = None\<rparr>"
  have q: "fst (GetPaginated ?db [] 3) = [SelectFirst 4]"
    by (simp add: GetPaginated_def Let_def)
  have r: "?db (SelectFirst 4) = Inr [Inr (sampleRow ''user'' ''u2'' 7 0), Inr (sampleRow ''user'' ''u1'' 7 0)]"
    by simp
  have p: "snd (GetPaginated ?db [] 3) = Inr ?page"
    by (simp add: GetPaginated_def Let_def)
  from C10_page_length [OF q r p, THEN conjunct1] q p show ?thesis
    by (simp only: simp_thms)
qed

text \<open>
  Claim C9. A non-empty token that fails to decode makes \<^verbatim>\<open>GetPaginated\<close> return
  \<^verbatim>\<open>(nil, err)\<close> with the decode error, and the list of statements sent to the store is
  empty.
\<close>

theorem C9_invalid_token:
  assumes "tok \<noteq> []" and "decodeContinuationToken tok = Inl e"
  shows "GetPaginated db tok ps = ([], Inl e)"
  using assms by (rule GetPaginated_invalid)

theorem C9_invalid_token_witness:
  "''!'' \<noteq> [] \<and> decodeContinuationToken ''!'' = Inl InvalidTokenEncoding
   \<and> GetPaginated (runQuery []) ''!'' 5 = ([], Inl InvalidTokenEncoding)"
proof -
  have d: "decodeContinuationToken ''!'' = Inl InvalidTokenEncoding"
    by (simp add: decodeContinuationToken_def DecodeString_def isNewline_def)
  have n: "''!'' \<noteq> []" by simp
  from C9_invalid_token [OF n d] d show ?thesis by simp
qed

text \<open>
  Claim C6. With a page size of zero or less \<^verbatim>\<open>GetPaginated\<close> returns what it returns for
  the page size 5, whatever the token and the store. It sends one statement with the limit
  6: the first-page statement for the empty token, the seek statement for a token that
  decodes. When the store answers that statement with rows that all scan, the call
  succeeds: more than 5 rows give the first 5 and a token encoded from the fifth, 5 rows or
  fewer give all of them and no token. Every successful result has at most 5 records, and
  it carries a token exactly if the store answered more than 5 rows.
\<close>

theorem C6_default_page_size:
  assumes "sint ps \<le> 0"
  shows "GetPaginated db tok ps = GetPaginated db tok 5
       \<and> (tok = [] \<longrightarrow> fst (GetPaginated db tok ps) = [SelectFirst 6])
       \<and> (\<forall>rt rid t. tok \<noteq> [] \<and> decodeContinuationToken tok = Inr (rt, rid, t)
             \<longrightarrow> fst (GetPaginated db tok ps) = [SelectAfter t rt rid 6])
       \<and> (\<forall>q rows. fst (GetPaginated db tok ps) = [q] \<and> db q = Inr (map Inr rows)
             \<longrightarrow> snd (GetPaginated db tok ps) =
                   Inr (if 5 < length rows
                        then \<lparr>Records = take 5 rows,
                              NextContinuationToken =
                                Some (encodeContinuationToken (ResourceType (rows ! 4))
                                        (ResourceID (rows ! 4)) (CreatedAt (rows ! 4)))\<rparr>
                        else \<lparr>Records = rows, NextContinuationToken = None\<rparr>))
       \<and> (\<forall>q \<in> set (fst (GetPaginated db tok ps)). limit q = 6)
       \<and> (\<forall>page. snd (GetPaginated db tok ps) = Inr page \<longrightarrow> length (Records page) \<le> 5)
       \<and> (\<forall>q reply page. fst (GetPaginated db tok ps) = [q] \<and> db q = Inr reply
             \<and> snd (GetPaginated db tok ps) = Inr page
           \<longrightarrow> (NextContinuationToken page \<noteq> None \<longleftrightarrow> 5 < length reply))"
proof -
  have n: "effectivePageSize ps = 5" using assms by (simp add: effectivePageSize_def)
  have l: "(if sint ps \<le> 0 then DefaultPageSize else ps) + 1 = 6"
    using assms by (simp add: DefaultPageSize_def)
  have a: "GetPaginated db tok ps = GetPaginated db tok 5"
    using assms by (rule GetPaginated_default)
  have f: "fst (GetPaginated db tok ps) = [SelectFirst 6]" if "tok = []"
    using that by (simp add: GetPaginated_first Let_def l)
  have g: "fst (GetPaginated db tok ps) = [SelectAfter t rt rid 6]"
    if "tok \<noteq> []" "decodeContinuationToken tok = Inr (rt, rid, t)" for rt rid t
    by (simp add: GetPaginated_after [OF that] Let_def l)
  have p: "snd (GetPaginated db tok ps) =
      Inr (if 5 < length rows
           then \<lparr>Records = take 5 rows,
                 NextContinuationToken =
                   Some (encodeContinuationToken (ResourceType (rows ! 4))
                           (ResourceID (rows ! 4)) (CreatedAt (rows ! 4)))\<rparr>
           else \<lparr>Records = rows, NextContinuationToken = None\<rparr>)"
    if "fst (GetPaginated db tok ps) = [q]" "db q = Inr (map Inr rows)" for q rows
  proof (cases db tok ps rule: GetPaginated_cases)
    case (invalid e)
    with that(1) show ?thesis by simp
  next
    case (query q')
    with that(1) have "q' = q" by simp
    with query(2) that(2)
    have "snd (GetPaginated db tok ps) = Inr (pageOf rows 5)"
      by (simp add: scanRows_map_Inr n)
    then show ?thesis
      by (simp add: pageOf_def tokenOf_def)
  qed
  have b: "\<forall>q \<in> set (fst (GetPaginated db tok ps)). limit q = 6"
    using assms by (cases db tok ps rule: GetPaginated_cases) (auto simp add: DefaultPageSize_def)
  have c: "length (Records page) \<le> 5" if "snd (GetPaginated db tok ps) = Inr page" for page
    using that
    by (cases db tok ps rule: GetPaginated_cases)
      (auto simp add: n pageOf_def split: sum.splits if_splits)
  have d: "NextContinuationToken page \<noteq> None \<longleftrightarrow> 5 < length reply"
    if "fst (GetPaginated db tok ps) = [q]" "db q = Inr reply"
      "snd (GetPaginated db tok ps) = Inr page" for q reply page
  proof (cases db tok ps rule: GetPaginated_cases)
    case (invalid e)
    with that(1) show ?thesis by simp
  next
    case (query q')
    with that(1) have "q' = q" by simp
    with query(2) that(2,3) obtain records where
      scan: "scanRows reply [] = Inr records" and page: "page = pageOf records 5"
      by (cases "scanRows reply []") (auto simp add: n)
    from scan have "length records = length reply" by (rule scanRows_length)
    with page show ?thesis by (simp add: pageOf_def)
  qed
  from a f g p b c d show ?thesis by blast
qed

theorem C6_default_page_size_witness:
  "sint (- 3 :: 64 word) \<le> 0
   \<and> fst (GetPaginated
        (\<lambda>q. Inr (map Inr
           [sampleRow ''user'' ''u6'' 7 0, sampleRow ''user'' ''u5'' 7 0,
            sampleRow ''user'' ''u4'' 7 0, sampleRow ''user'' ''u3'' 7 0,
            sampleRow ''user'' ''u2'' 7 0, sampleRow ''user'' ''u1'' 7 0])) [] (- 3))
     = [SelectFirst 6]
   \<and> snd (GetPaginated
        (\<lambda>q. Inr (map Inr
           [sampleRow ''user'' ''u6'' 7 0, sampleRow ''user'' ''u5'' 7 0,
            sampleRow ''user'' ''u4'' 7 0, sampleRow ''user'' ''u3'' 7 0,
            sampleRow ''user'' ''u2'' 7 0, sampleRow ''user'' ''u1'' 7 0])) [] (- 3))
     = Inr \<lparr>Records =
              [sampleRow ''user'' ''u6'' 7 0, sampleRow ''user'' ''u5'' 7 0,
               sampleRow ''user'' ''u4'' 7 0, sampleRow ''user'' ''u3'' 7 0,
               sampleRow ''user'' ''u2'' 7 0],
            NextContinuationToken =
              Some (encodeContinuationToken ''user'' ''u2'' \<lparr>unix_sec = 7, nsec = 0\<rparr>)\<rparr>"
proof -
  let ?rows = "[sampleRow ''user'' ''u6'' 7 0, sampleRow ''user'' ''u5'' 7 0,
            sampleRow ''user'' ''u4'' 7 0, sampleRow ''user'' ''u3'' 7 0,
            sampleRow ''user'' ''u2'' 7 0, sampleRow ''user'' ''u1'' 7 0]"
  let ?db = "\<lambda>q::query. (Inr (map Inr ?rows) :: error + (error + Record) list)"
  have h: "sint (- 3 :: 64 word) \<le> 0" by simp
  note c6 = C6_default_page_size [OF h, where tok = "[]" and db = ?db]
  have q: "fst (GetPaginated ?db [] (- 3)) = [SelectFirst 6]"
    using c6 [THEN conjunct2, THEN conjunct1] by (simp only: simp_thms)
  have r: "?db (SelectFirst 6) = Inr (map Inr ?rows)" by (rule refl)
  have len: "5 < length ?rows" by simp
  have four: "?rows ! 4 = sampleRow ''user'' ''u2'' 7 0" by simp
  have five: "take 5 ?rows = [sampleRow ''user'' ''u6'' 7 0, sampleRow ''user'' ''u5'' 7 0,
               sampleRow ''user'' ''u4'' 7 0, sampleRow ''user'' ''u3'' 7 0,
               sampleRow ''user'' ''u2'' 7 0]" by simp
  have flds: "ResourceType (sampleRow ''user'' ''u2'' 7 0) = ''user''"
    "ResourceID (sampleRow ''user'' ''u2'' 7 0) = ''u2''"
    "CreatedAt (sampleRow ''user'' ''u2'' 7 0) = \<lparr>unix_sec = 7, nsec = 0\<rparr>"
    by (simp_all add: sampleRow_def)
  have "snd (GetPaginated ?db [] (- 3)) =
      Inr (if 5 < length ?rows
           then \<lparr>Records = take 5 ?rows,
                 NextContinuationToken =
                   Some (encodeContinuationToken (ResourceType (?rows ! 4))
                           (ResourceID (?rows ! 4)) (CreatedAt (?rows ! 4)))\<rparr>
           else \<lparr>Records = ?rows, NextContinuationToken = None\<rparr>)"
    using c6 [THEN conjunct2, THEN conjunct2, THEN conjunct2, THEN conjunct1, rule_format,
        of "SelectFirst 6" ?rows, OF conjI [OF q r]] .
  then have s: "snd (GetPaginated ?db [] (- 3)) =
      Inr \<lparr>Records = [sampleRow ''user'' ''u6'' 7 0, sampleRow ''user'' ''u5'' 7 0,
               sampleRow ''user'' ''u4'' 7 0, sampleRow ''user'' ''u3'' 7 0,
               sampleRow ''user'' ''u2'' 7 0],
            NextContinuationToken =
              Some (encodeContinuationToken ''user'' ''u2'' \<lparr>unix_sec = 7, nsec = 0\<rparr>)\<rparr>"
    unfolding four five flds using len by (simp only: if_True)
  from h q s show ?thesis by (simp only: simp_thms)
qed

lemma less_triple_iff:
  fixes a a' :: "'a::linorder" and b b' :: "'b::linorder" and c c' :: "'c::linorder"
  shows "(a, b, c) < (a', b', c') \<longleftrightarrow>
    a < a' \<or> (a = a' \<and> b < b') \<or> (a = a' \<and> b = b' \<and> c < c')"
  by auto

text \<open>
  Claim C4. The \<^verbatim>\<open>WHERE\<close> clause holds of a row exactly if the row's triple is strictly
  below the cursor's triple in the lexicographic order, and no two of its three disjuncts
  hold together.
\<close>

theorem C4_seek_predicate:
  "(seekWhere r lastCreatedAt lastResourceType lastResourceID
      \<longleftrightarrow> key3 r < cursorKey lastCreatedAt lastResourceType lastResourceID)
   \<and> \<not> (whereBranch1 r lastCreatedAt \<and> whereBranch2 r lastCreatedAt lastResourceType)
   \<and> \<not> (whereBranch1 r lastCreatedAt
        \<and> whereBranch3 r lastCreatedAt lastResourceType lastResourceID)
   \<and> \<not> (whereBranch2 r lastCreatedAt lastResourceType
        \<and> whereBranch3 r lastCreatedAt lastResourceType lastResourceID)"
  unfolding seekWhere_def whereBranch1_def whereBranch2_def whereBranch3_def
    key3_def cursorKey_def less_triple_iff
  by auto

theorem C4_seek_predicate_witness:
  "seekWhere (sampleRow ''user'' ''u1'' 7 0) \<lparr>unix_sec = 7, nsec = 0\<rparr> ''user'' ''u2''
   \<and> key3 (sampleRow ''user'' ''u1'' 7 0) < cursorKey \<lparr>unix_sec = 7, nsec = 0\<rparr> ''user'' ''u2''
   \<and> whereBranch3 (sampleRow ''user'' ''u1'' 7 0) \<lparr>unix_sec = 7, nsec = 0\<rparr> ''user'' ''u2''
   \<and> \<not> whereBranch1 (sampleRow ''user'' ''u1'' 7 0) \<lparr>unix_sec = 7, nsec = 0\<rparr>
   \<and> \<not> whereBranch2 (sampleRow ''user'' ''u1'' 7 0) \<lparr>unix_sec = 7, nsec = 0\<rparr> ''user''"
proof -
  have "whereBranch3 (sampleRow ''user'' ''u1'' 7 0) \<lparr>unix_sec = 7, nsec = 0\<rparr> ''user'' ''u2''"
    by (simp add: whereBranch3_def sampleRow_def timeKey_def less_char_def)
  with C4_seek_predicate [of "sampleRow ''user'' ''u1'' 7 0" "\<lparr>unix_sec = 7, nsec = 0\<rparr>" "''user''" "''u2''"]
  show ?thesis by (simp add: seekWhere_def)
qed

text \<open>
  Claim C3, amended. When neither the resource type nor the resource identifier contains
  the delimiter \<^verbatim>\<open>|\<close>, decoding the encoded position succeeds and returns the same type,
  the same identifier and the timestamp cut to whole seconds (nanoseconds zero).
\<close>

theorem C3_roundtrip:
  assumes "CHR ''|'' \<notin> set resourceType" and "CHR ''|'' \<notin> set resourceID"
  shows "decodeContinuationToken (encodeContinuationToken resourceType resourceID timestamp)
       = Inr (resourceType, resourceID, \<lparr>unix_sec = unix_sec timestamp, nsec = 0\<rparr>)"
  using decode_encode [OF assms, of timestamp] by (simp add: time_Unix_def Unix_def)

theorem C3_roundtrip_witness:
  "CHR ''|'' \<notin> set ''user'' \<and> CHR ''|'' \<notin> set ''user-123''
   \<and> decodeContinuationToken
        (encodeContinuationToken ''user'' ''user-123'' \<lparr>unix_sec = 1234567890, nsec = 999\<rparr>)
     = Inr (''user'', ''user-123'', \<lparr>unix_sec = 1234567890, nsec = 0\<rparr>)"
proof -
  have a: "CHR ''|'' \<notin> set ''user''" and b: "CHR ''|'' \<notin> set ''user-123''" by simp_all
  from C3_roundtrip [OF a b, of "\<lparr>unix_sec = 1234567890, nsec = 999\<rparr>"] a b show ?thesis
    by simp
qed

text \<open>
  The claim as stated, for every position, fails: a resource type with the delimiter in it
  does not come back; decoding its token is an error.
\<close>

theorem C3_counterexample:
  "decodeContinuationToken (encodeContinuationToken ''a|b'' ''x'' \<lparr>unix_sec = 0, nsec = 0\<rparr>)
     = Inl InvalidTokenFormat"
  by (rule decode_encode_pipe) simp

text \<open>
  Claim C7. The token is a function of the resource type, the resource identifier and the
  Unix second of the timestamp, so equal inputs give equal tokens; and every character of
  a token is a letter, a digit, \<^verbatim>\<open>-\<close>, \<^verbatim>\<open>_\<close> or \<^verbatim>\<open>=\<close>.
\<close>

theorem C7_deterministic_urlsafe:
  "(rt1 = rt2 \<and> rid1 = rid2 \<and> Unix t1 = Unix t2
      \<longrightarrow> encodeContinuationToken rt1 rid1 t1 = encodeContinuationToken rt2 rid2 t2)
   \<and> set (encodeContinuationToken rt1 rid1 t1)
       \<subseteq> set ''ABCDEFGHIJKLMNOPQRSTUVWXYZabcdefghijklmnopqrstuvwxyz0123456789-_=''"
proof -
  have "insert padChar (set encodeURL)
      = set ''ABCDEFGHIJKLMNOPQRSTUVWXYZabcdefghijklmnopqrstuvwxyz0123456789-_=''"
    by (simp add: padChar_def encodeURL_def insert_commute)
  then show ?thesis
    using set_EncodeToString [of "tokenData rt1 rid1 t1"]
    by (simp add: encodeContinuationToken_def tokenData_def)
qed

theorem C7_deterministic_urlsafe_witness:
  "Unix \<lparr>unix_sec = 7, nsec = 1\<rparr> = Unix \<lparr>unix_sec = 7, nsec = 2\<rparr>
   \<and> encodeContinuationToken ''user'' ''u1'' \<lparr>unix_sec = 7, nsec = 1\<rparr>
     = encodeContinuationToken ''user'' ''u1'' \<lparr>unix_sec = 7, nsec = 2\<rparr>"
  using C7_deterministic_urlsafe [of "''user''" "''user''" "''u1''" "''u1''"
      "\<lparr>unix_sec = 7, nsec = 1\<rparr>" "\<lparr>unix_sec = 7, nsec = 2\<rparr>"]
  by (simp add: Unix_def)

text \<open>
  Claim C8. The delimiter is not escaped: when the resource type or the resource identifier
  contains \<^verbatim>\<open>|\<close>, the decoded string splits into more than three fields and decoding
  the encoded position fails with the invalid-format error (the first of the two errors the
  claim allows), so it returns no position at all.
\<close>

theorem C8_delimiter_not_escaped:
  assumes "CHR ''|'' \<in> set resourceType \<or> CHR ''|'' \<in> set resourceID"
  shows "(decodeContinuationToken (encodeContinuationToken resourceType resourceID timestamp)
            = Inl InvalidTokenFormat
          \<or> decodeContinuationToken (encodeContinuationToken resourceType resourceID timestamp)
            = Inl InvalidTokenTimestamp)
       \<and> (\<forall>p. decodeContinuationToken (encodeContinuationToken resourceType resourceID timestamp)
            \<noteq> Inr p)
       \<and> 3 < length (Split (tokenData resourceType resourceID timestamp) (CHR ''|''))"
proof -
  have "0 < count_list resourceType (CHR ''|'') + count_list resourceID (CHR ''|'')"
    using assms by (metis add_gr_0 count_list_0_iff neq0_conv)
  then have "3 < length (Split (tokenData resourceType resourceID timestamp) (CHR ''|''))"
    by (simp add: length_Split count_tokenData)
  with decode_encode_pipe [OF assms, of timestamp] show ?thesis by simp
qed

theorem C8_delimiter_not_escaped_witness:
  "(CHR ''|'' \<in> set ''user'' \<or> CHR ''|'' \<in> set ''u|1'')
   \<and> decodeContinuationToken (encodeContinuationToken ''user'' ''u|1'' \<lparr>unix_sec = 7, nsec = 0\<rparr>)
     = Inl InvalidTokenFormat"
proof -
  have a: "CHR ''|'' \<in> set ''user'' \<or> CHR ''|'' \<in> set ''u|1''" by simp
  have "decodeContinuationToken (encodeContinuationToken ''user'' ''u|1'' \<lparr>unix_sec = 7, nsec = 0\<rparr>)
      \<noteq> Inl InvalidTokenTimestamp"
    using decode_encode_pipe [OF a, of "\<lparr>unix_sec = 7, nsec = 0\<rparr>"] by simp
  with C8_delimiter_not_escaped [OF a, of "\<lparr>unix_sec = 7, nsec = 0\<rparr>"] a show ?thesis
    by blast
qed

section \<open>The classes of malformed tokens\<close>

lemma in_alphabet_iff: "c \<in> set encodeURL \<longleftrightarrow> decodeMap c \<noteq> None"
  using decodeMap_Some_iff [of c] by auto

lemma decodeQuanta_valid: "decodeQuanta s \<noteq> None \<longleftrightarrow> validQuanta s"
proof (induction s rule: validQuanta.induct)
  case 1
  show ?case by simp
next
  case (2 a b c d)
  show ?case
    by (auto simp add: in_alphabet_iff decodeMap_padChar split: option.splits)
next
  case (3 a b c d v va)
  then show ?case
    by (auto simp add: in_alphabet_iff decodeMap_padChar split: option.splits)
qed simp_all

lemma DecodeString_valid: "DecodeString token \<noteq> None \<longleftrightarrow> validBase64URL token"
  by (simp only: DecodeString_def validBase64URL_def decodeQuanta_valid)

lemma foldl_digits_ge: "n \<le> foldl (\<lambda>n c. n * 10 + digitVal c) n ds"
proof (induction ds arbitrary: n)
  case Nil
  show ?case by simp
next
  case (Cons c cs)
  have "n \<le> n * 10 + digitVal c" by simp
  also have "\<dots> \<le> foldl (\<lambda>n c. n * 10 + digitVal c) (n * 10 + digitVal c) cs" by (rule Cons.IH)
  finally show ?case by simp
qed

lemma cutoff_overflow: "maxUint64 div 10 + 1 \<le> n \<Longrightarrow> maxUint64 < n * 10 + d"
proof -
  assume "maxUint64 div 10 + 1 \<le> n"
  then have "(maxUint64 div 10 + 1) * 10 \<le> n * 10" by simp
  moreover have "maxUint64 < (maxUint64 div 10 + 1) * 10"
    by (simp add: maxUint64_def)
  ultimately show ?thesis by linarith
qed

lemma ParseUint_loop_Inr_iff:
  assumes "n \<le> maxUint64"
  shows "ParseUint_loop s n = Inr m \<longleftrightarrow>
    list_all isDigit s \<and> m = foldl (\<lambda>n c. n * 10 + digitVal c) n s \<and> m \<le> maxUint64"
  using assms
proof (induction s arbitrary: n)
  case Nil
  then show ?case by auto
next
  case (Cons c cs)
  let ?f = "\<lambda>n c. n * 10 + digitVal c"
  let ?n1 = "n * 10 + digitVal c"
  have ge: "?n1 \<le> foldl ?f ?n1 cs" by (rule foldl_digits_ge)
  show ?case
  proof (cases "isDigit c")
    case False
    then show ?thesis by simp
  next
    case True
    show ?thesis
    proof (cases "maxUint64 div 10 + 1 \<le> n")
      case True
      then have "maxUint64 < ?n1" by (rule cutoff_overflow)
      with ge True \<open>isDigit c\<close> show ?thesis by auto
    next
      case False
      show ?thesis
      proof (cases "maxUint64 < ?n1")
        case True
        with ge False \<open>isDigit c\<close> show ?thesis by (auto simp add: Let_def)
      next
        case n1: False
        then have "?n1 \<le> maxUint64" by simp
        from Cons.IH [OF this] False n1 \<open>isDigit c\<close> show ?thesis
          by (simp add: Let_def)
      qed
    qed
  qed
qed

lemma ParseUint_Inr_iff:
  "ParseUint s = Inr m \<longleftrightarrow>
     s \<noteq> [] \<and> list_all isDigit s \<and> m = decimalValue s \<and> m \<le> maxUint64"
  using ParseUint_loop_Inr_iff [of 0 s m]
  by (auto simp add: ParseUint_def decimalValue_def)

lemma ParseInt_decimal:
  "ParseInt s = (if isDecimalInt64 s then Inr (word_of_int (decimalInt s)) else
     (case ParseInt s of Inl e \<Rightarrow> Inl e | Inr w \<Rightarrow> Inl ErrSyntax))"
proof (cases "s = []")
  case True
  then show ?thesis
    by (simp add: ParseInt_def isDecimalInt64_def unsignedPart_def)
next
  case False
  define u where "u = unsignedPart s"
  have u: "(if hd s = CHR ''+'' \<or> hd s = CHR ''-'' then tl s else s) = u"
    using False by (simp add: u_def unsignedPart_def)
  have le: "(2::nat) ^ 63 \<le> maxUint64" by (rule two63_le_max)
  show ?thesis
  proof (cases "ParseUint u")
    case (Inl e)
    then have "\<not> (u \<noteq> [] \<and> list_all isDigit u \<and> decimalValue u \<le> maxUint64)"
      using ParseUint_Inr_iff [of u "decimalValue u"] by auto
    then have "\<not> isDecimalInt64 s"
      using le by (auto simp add: isDecimalInt64_def u_def [symmetric] decimalInt_def split: if_splits)
    with Inl False u show ?thesis
      by (simp add: ParseInt_def Let_def)
  next
    case (Inr un)
    then have un: "u \<noteq> []" "list_all isDigit u" "un = decimalValue u"
      using ParseUint_Inr_iff [of u un] by auto
    show ?thesis
    proof (cases "hd s = CHR ''-''")
      case True
      then have d: "decimalInt s = - int un"
        using False by (simp add: decimalInt_def u_def [symmetric] un(3))
      have "isDecimalInt64 s \<longleftrightarrow> un \<le> 2 ^ 63"
        using un(1,2) by (auto simp add: isDecimalInt64_def u_def [symmetric] d)
      with Inr False u True d show ?thesis
        by (auto simp add: ParseInt_def Let_def)
    next
      case neg: False
      then have d: "decimalInt s = int un"
        using False by (simp add: decimalInt_def u_def [symmetric] un(3))
      have "isDecimalInt64 s \<longleftrightarrow> un < 2 ^ 63"
        using un(1,2) by (auto simp add: isDecimalInt64_def u_def [symmetric] d)
      with Inr False u neg d show ?thesis
        by (auto simp add: ParseInt_def Let_def)
    qed
  qed
qed

lemma ParseInt_Inr: "isDecimalInt64 s \<Longrightarrow> ParseInt s = Inr (word_of_int (decimalInt s))"
  using ParseInt_decimal [of s] by simp

lemma ParseInt_Inl: "\<not> isDecimalInt64 s \<Longrightarrow> \<exists>e. ParseInt s = Inl e"
  using ParseInt_decimal [of s] by (cases "ParseInt s") auto

text \<open>
  Claim C5. \<^verbatim>\<open>decodeContinuationToken\<close> fails on three classes of input, each with its own
  error, and succeeds on every other input: a token that is not URL-safe base64 gives the
  invalid-encoding error; a token that decodes to a string which \<^verbatim>\<open>|\<close> does not split
  into exactly three fields gives the invalid-format error; three fields of which the
  third is no base-10 integer of 64 bits give the invalid-timestamp error; otherwise the
  result is the first field, the second field and the time of the third.
\<close>

theorem C5_decode_errors:
  "(decodeContinuationToken token = Inl InvalidTokenEncoding \<longleftrightarrow> \<not> validBase64URL token)
   \<and> (decodeContinuationToken token = Inl InvalidTokenFormat \<longleftrightarrow>
        (\<exists>decoded. DecodeString token = Some decoded
           \<and> length (Split decoded (CHR ''|'')) \<noteq> 3))
   \<and> (decodeContinuationToken token = Inl InvalidTokenTimestamp \<longleftrightarrow>
        (\<exists>decoded a b c. DecodeString token = Some decoded
           \<and> Split decoded (CHR ''|'') = [a, b, c] \<and> \<not> isDecimalInt64 c))
   \<and> (\<forall>decoded a b c.
         DecodeString token = Some decoded \<and> Split decoded (CHR ''|'') = [a, b, c]
           \<and> isDecimalInt64 c
         \<longrightarrow> decodeContinuationToken token
               = Inr (a, b, time_Unix (word_of_int (decimalInt c))))
   \<and> decodeContinuationToken token \<noteq> Inl StoreQueryFailed
   \<and> (validBase64URL token \<longleftrightarrow> (\<exists>decoded. DecodeString token = Some decoded))"
proof (cases "DecodeString token")
  case None
  then have "\<not> validBase64URL token" using DecodeString_valid [of token] by simp
  with None show ?thesis
    by (simp add: decodeContinuationToken_def)
next
  case (Some decoded)
  then have v: "validBase64URL token" using DecodeString_valid [of token] by simp
  show ?thesis
  proof (cases "length (Split decoded (CHR ''|'')) = 3")
    case False
    then have "\<And>a b c. Split decoded (CHR ''|'') \<noteq> [a, b, c]" by auto
    with Some v False show ?thesis
      by (simp add: decodeContinuationToken_def Let_def)
  next
    case True
    then obtain a b c where abc: "Split decoded (CHR ''|'') = [a, b, c]"
      by (auto simp add: numeral_3_eq_3 length_Suc_conv)
    show ?thesis
    proof (cases "isDecimalInt64 c")
      case True
      with Some v abc ParseInt_Inr [OF True] show ?thesis
        by (simp add: decodeContinuationToken_def Let_def)
    next
      case False
      then obtain e where "ParseInt c = Inl e" using ParseInt_Inl by blast
      with Some v abc False show ?thesis
        by (simp add: decodeContinuationToken_def Let_def)
    qed
  qed
qed

theorem C5_decode_errors_witness:
  "DecodeString (EncodeToString ''a|b|-7'') = Some ''a|b|-7''
   \<and> Split ''a|b|-7'' (CHR ''|'') = [''a'', ''b'', ''-7''] \<and> isDecimalInt64 ''-7''
   \<and> decodeContinuationToken (EncodeToString ''a|b|-7'') = Inr (''a'', ''b'', time_Unix (- 7))
   \<and> \<not> validBase64URL ''!''
   \<and> decodeContinuationToken ''!'' = Inl InvalidTokenEncoding"
proof -
  have d: "DecodeString (EncodeToString ''a|b|-7'') = Some ''a|b|-7''"
    by (rule DecodeString_EncodeToString)
  have s: "Split ''a|b|-7'' (CHR ''|'') = [''a'', ''b'', ''-7'']" by simp
  have v: "decimalInt ''-7'' = - 7"
    by (simp add: decimalInt_def unsignedPart_def decimalValue_def digitVal_def)
  have i: "isDecimalInt64 ''-7''"
    by (simp add: isDecimalInt64_def v) (simp add: unsignedPart_def isDigit_def less_eq_char_def)
  have n: "\<not> validBase64URL ''!''"
    by (simp add: validBase64URL_def isNewline_def)
  have w: "(word_of_int (- 7) :: 64 word) = - 7" by simp
  note ok = C5_decode_errors [of "EncodeToString ''a|b|-7''", THEN conjunct2, THEN conjunct2,
      THEN conjunct2, THEN conjunct1, rule_format, of "''a|b|-7''" "''a''" "''b''" "''-7''"]
  have "decodeContinuationToken (EncodeToString ''a|b|-7'') = Inr (''a'', ''b'', time_Unix (- 7))"
    using ok [OF conjI [OF d conjI [OF s i]]] by (simp only: v w)
  moreover have "decodeContinuationToken ''!'' = Inl InvalidTokenEncoding"
    using C5_decode_errors [of "''!''", THEN conjunct1] n by (rule iffD2)
  ultimately show ?thesis using d s i n by (simp only: simp_thms)
qed

section \<open>A full forward traversal over a table\<close>

lemma seekWhere_less:
  "seekWhere r t rt rid \<longleftrightarrow> key3 r < cursorKey t rt rid"
  unfolding seekWhere_def whereBranch1_def whereBranch2_def whereBranch3_def
    key3_def cursorKey_def less_triple_iff
  by auto

lemma mset_orderDesc: "mset (orderDesc table) = mset table"
  by (simp add: orderDesc_def)

lemma set_orderDesc: "set (orderDesc table) = set table"
  by (simp add: orderDesc_def)

lemma orderDesc_filter: "orderDesc (filter P table) = filter P (orderDesc table)"
  unfolding orderDesc_def by (simp only: filter_sort [symmetric] rev_filter)

lemma distinct_key3:
  assumes "distinct (map primaryKey table)"
  shows "distinct (map key3 table)"
proof -
  have "map primaryKey table = map snd (map key3 table)"
    by (simp add: primaryKey_def key3_def)
  with assms show ?thesis
    by (metis distinct_map)
qed

lemma orderDesc_strict:
  assumes "distinct (map primaryKey table)"
  shows "sorted_wrt (\<lambda>a b. key3 b < key3 a) (orderDesc table)"
proof -
  have "distinct (map key3 (sort_key key3 table))"
    using distinct_key3 [OF assms]
    by (metis distinct_map distinct_sort set_sort)
  then have "sorted_wrt (<) (map key3 (sort_key key3 table))"
    by (simp add: strict_sorted_iff)
  then show ?thesis
    by (simp add: orderDesc_def sorted_wrt_rev sorted_wrt_map)
qed

lemma filter_below:
  assumes "sorted_wrt (\<lambda>a b. key3 b < key3 a) (A @ x # B)"
  shows "filter (\<lambda>r. key3 r < key3 x) (A @ x # B) = B"
proof -
  from assms have a: "\<forall>a \<in> set A. key3 x < key3 a" and b: "\<forall>b \<in> set B. key3 b < key3 x"
    by (auto simp add: sorted_wrt_append)
  from a have "filter (\<lambda>r. key3 r < key3 x) A = []"
    by (auto simp add: filter_empty_conv)
  moreover from b have "filter (\<lambda>r. key3 r < key3 x) B = B"
    by (simp add: filter_id_conv)
  ultimately show ?thesis by simp
qed

lemma sint_succ:
  fixes w :: "64 word"
  assumes "sint w < 2 ^ 63 - 1"
  shows "sint (w + 1) = sint w + 1"
proof -
  have "- (2 ^ 63) \<le> sint w" using sint_ge [of w] by simp
  then have "signed_take_bit 63 (sint w + 1) = sint w + 1"
    using assms by (intro signed_take_bit_int_eq_self) simp_all
  then show ?thesis
    by (simp add: sint_word_add)
qed

lemma limit_ok:
  assumes "0 < sint ps" "sint ps < 2 ^ 63 - 1"
  shows "sint ((if sint ps \<le> 0 then DefaultPageSize else ps) + 1) = int (effectivePageSize ps) + 1"
  using assms sint_succ [of ps] by (simp add: effectivePageSize_def)

lemma page_first:
  assumes "0 < sint ps" "sint ps < 2 ^ 63 - 1"
  shows "snd (GetPaginated (runQuery table) [] ps)
    = Inr (pageOf (take (effectivePageSize ps + 1) (orderDesc table)) (effectivePageSize ps))"
proof -
  have "nat (int (effectivePageSize ps) + 1) = effectivePageSize ps + 1" by simp
  then show ?thesis
    by (simp add: GetPaginated_first Let_def runQuery_def limit_ok [OF assms]
        scanRows_map_Inr del: One_nat_def)
qed

lemma page_after:
  assumes "0 < sint ps" "sint ps < 2 ^ 63 - 1"
    and "tok \<noteq> []" "decodeContinuationToken tok = Inr (rt, rid, t)"
  shows "snd (GetPaginated (runQuery table) tok ps)
    = Inr (pageOf (take (effectivePageSize ps + 1)
             (filter (\<lambda>r. key3 r < cursorKey t rt rid) (orderDesc table))) (effectivePageSize ps))"
proof -
  have n: "nat (int (effectivePageSize ps) + 1) = effectivePageSize ps + 1" by simp
  have m: "matches (SelectAfter t rt rid l) = (\<lambda>r. key3 r < cursorKey t rt rid)" for l
    by (rule ext) (simp add: seekWhere_less)
  show ?thesis
    by (simp add: GetPaginated_after [OF assms(3,4)] Let_def runQuery_def
        limit_ok [OF assms(1,2)] n m orderDesc_filter scanRows_map_Inr del: One_nat_def)
qed

lemma tokenOf_not_Nil: "tokenOf x \<noteq> []"
  by (simp add: tokenOf_def encodeContinuationToken_def EncodeToString_Nil_iff tokenData_def)

lemma decode_tokenOf:
  assumes "CHR ''|'' \<notin> set (ResourceType x)" "CHR ''|'' \<notin> set (ResourceID x)"
  shows "decodeContinuationToken (tokenOf x)
    = Inr (ResourceType x, ResourceID x, time_Unix (Unix (CreatedAt x)))"
  unfolding tokenOf_def using assms by (rule decode_encode)

lemma cursorKey_decoded:
  assumes "nsec (CreatedAt x) = 0"
  shows "cursorKey (time_Unix (Unix (CreatedAt x))) (ResourceType x) (ResourceID x) = key3 x"
  using assms by (simp add: cursorKey_def key3_def timeKey_def time_Unix_def Unix_def)

lemma page_after_row:
  assumes ps: "0 < sint ps" "sint ps < 2 ^ 63 - 1"
    and strict: "sorted_wrt (\<lambda>a b. key3 b < key3 a) (orderDesc table)"
    and split: "orderDesc table = A @ x # B"
    and x: "nsec (CreatedAt x) = 0" "CHR ''|'' \<notin> set (ResourceType x)"
      "CHR ''|'' \<notin> set (ResourceID x)"
  shows "snd (GetPaginated (runQuery table) (tokenOf x) ps)
    = Inr (pageOf (take (effectivePageSize ps + 1) B) (effectivePageSize ps))"
proof -
  have "filter (\<lambda>r. key3 r < key3 x) (orderDesc table) = B"
    using strict unfolding split by (rule filter_below)
  then show ?thesis
    using page_after [OF ps tokenOf_not_Nil decode_tokenOf [OF x(2,3)], of table]
    by (simp only: cursorKey_decoded [OF x(1)])
qed

lemma pageOf_short:
  assumes "length B \<le> n"
  shows "pageOf (take (Suc n) B) n = \<lparr>Records = B, NextContinuationToken = None\<rparr>"
  using assms by (simp add: pageOf_def)

lemma pageOf_long:
  assumes "n < length B" "0 < n"
  shows "pageOf (take (Suc n) B) n
    = \<lparr>Records = take n B, NextContinuationToken = Some (tokenOf (B ! (n - 1)))\<rparr>"
  using assms by (simp add: pageOf_def min_def)

lemma traverse_after:
  assumes ps: "0 < sint ps" "sint ps < 2 ^ 63 - 1"
    and strict: "sorted_wrt (\<lambda>a b. key3 b < key3 a) (orderDesc table)"
    and whole: "\<forall>r \<in> set table. nsec (CreatedAt r) = 0"
    and nopipe: "\<forall>r \<in> set table. CHR ''|'' \<notin> set (ResourceType r) \<and> CHR ''|'' \<notin> set (ResourceID r)"
  shows "orderDesc table = A @ x # B
    \<Longrightarrow> traverse (runQuery table) ps (tokenOf x) seen = Some (Inr (seen @ B))"
proof (induction "length B" arbitrary: A x B seen rule: less_induct)
  case less
  let ?n = "effectivePageSize ps"
  have n: "0 < ?n" by (rule effectivePageSize_pos)
  have "x \<in> set table"
    using less.prems set_orderDesc [of table] by (metis in_set_conv_decomp)
  with whole nopipe have x: "nsec (CreatedAt x) = 0" "CHR ''|'' \<notin> set (ResourceType x)"
      "CHR ''|'' \<notin> set (ResourceID x)" by auto
  have page: "snd (GetPaginated (runQuery table) (tokenOf x) ps)
      = Inr (pageOf (take (?n + 1) B) ?n)"
    using ps strict less.prems x by (rule page_after_row)
  show ?case
  proof (cases "length B \<le> ?n")
    case True
    show ?thesis
      by (subst traverse.simps) (simp add: page pageOf_short [OF True])
  next
    case False
    then have long: "?n < length B" by simp
    define y where "y = B ! (?n - 1)"
    have B: "B = take (?n - 1) B @ y # drop ?n B"
      using id_take_nth_drop [of "?n - 1" B] long n unfolding y_def by simp
    have "orderDesc table = (A @ x # take (?n - 1) B) @ y # drop ?n B"
      using less.prems B by simp
    moreover have "length (drop ?n B) < length B"
      using long n by simp
    ultimately have step: "traverse (runQuery table) ps (tokenOf y) (seen @ take ?n B)
        = Some (Inr ((seen @ take ?n B) @ drop ?n B))"
      using less.hyps by blast
    have step': "traverse (runQuery table) ps (tokenOf (B ! (?n - Suc 0))) (seen @ take ?n B)
        = Some (Inr (seen @ B))"
      using step unfolding y_def by simp
    show ?thesis
      by (subst traverse.simps) (simp add: page pageOf_long [OF long n] step')
  qed
qed

lemma traverse_all:
  assumes ps: "0 < sint ps" "sint ps < 2 ^ 63 - 1"
    and pk: "distinct (map primaryKey table)"
    and whole: "\<forall>r \<in> set table. nsec (CreatedAt r) = 0"
    and nopipe: "\<forall>r \<in> set table. CHR ''|'' \<notin> set (ResourceType r) \<and> CHR ''|'' \<notin> set (ResourceID r)"
  shows "traverse (runQuery table) ps [] [] = Some (Inr (orderDesc table))"
proof -
  let ?n = "effectivePageSize ps"
  let ?S = "orderDesc table"
  have n: "0 < ?n" by (rule effectivePageSize_pos)
  have strict: "sorted_wrt (\<lambda>a b. key3 b < key3 a) ?S"
    using pk by (rule orderDesc_strict)
  have page: "snd (GetPaginated (runQuery table) [] ps) = Inr (pageOf (take (?n + 1) ?S) ?n)"
    using ps by (rule page_first)
  show ?thesis
  proof (cases "length ?S \<le> ?n")
    case True
    show ?thesis
      by (subst traverse.simps) (simp add: page pageOf_short [OF True])
  next
    case False
    then have long: "?n < length ?S" by simp
    define y where "y = ?S ! (?n - 1)"
    have S: "?S = take (?n - 1) ?S @ y # drop ?n ?S"
      using id_take_nth_drop [of "?n - 1" ?S] long n unfolding y_def by simp
    have step: "traverse (runQuery table) ps (tokenOf y) (take ?n ?S)
        = Some (Inr (take ?n ?S @ drop ?n ?S))"
      using traverse_after [OF ps strict whole nopipe S] .
    have step': "traverse (runQuery table) ps (tokenOf (?S ! (?n - Suc 0))) (take ?n ?S)
        = Some (Inr ?S)"
      using step unfolding y_def by simp
    show ?thesis
      by (subst traverse.simps) (simp add: page pageOf_long [OF long n] step')
  qed
qed

lemma orderDesc_two:
  assumes "key3 b < key3 a"
  shows "orderDesc [a, b] = [a, b]"
  using assms by (simp add: orderDesc_def)

text \<open>
  Claim C1, amended. For a table that keeps its primary key, whose creation times are whole
  seconds and whose resource types and identifiers are free of \<^verbatim>\<open>|\<close>, and for a positive
  page size below the largest \<^verbatim>\<open>int\<close>, the traversal from the empty token ends and
  yields the rows in descending order of the triple: every row of the table once.
\<close>

theorem C1_traversal:
  assumes "distinct (map primaryKey table)"
    and "\<forall>r \<in> set table. nsec (CreatedAt r) = 0"
    and "\<forall>r \<in> set table. CHR ''|'' \<notin> set (ResourceType r) \<and> CHR ''|'' \<notin> set (ResourceID r)"
    and "0 < sint pageSize" and "sint pageSize < 2 ^ 63 - 1"
  shows "traverse (runQuery table) pageSize [] [] = Some (Inr (orderDesc table))
       \<and> mset (orderDesc table) = mset table
       \<and> sorted_wrt (\<lambda>a b. key3 b < key3 a) (orderDesc table)"
  using traverse_all [OF assms(4,5,1,2,3)] mset_orderDesc [of table] orderDesc_strict [OF assms(1)]
  by simp

theorem C1_traversal_witness:
  "distinct (map primaryKey
      [sampleRow ''user'' ''u1'' 7 0, sampleRow ''user'' ''u2'' 7 0, sampleRow ''admin'' ''a1'' 9 0])
   \<and> 0 < sint (2 :: 64 word) \<and> sint (2 :: 64 word) < 2 ^ 63 - 1
   \<and> traverse (runQuery
        [sampleRow ''user'' ''u1'' 7 0, sampleRow ''user'' ''u2'' 7 0, sampleRow ''admin'' ''a1'' 9 0])
        2 [] []
     = Some (Inr [sampleRow ''admin'' ''a1'' 9 0, sampleRow ''user'' ''u2'' 7 0,
                  sampleRow ''user'' ''u1'' 7 0])"
proof -
  let ?t = "[sampleRow ''user'' ''u1'' 7 0, sampleRow ''user'' ''u2'' 7 0, sampleRow ''admin'' ''a1'' 9 0]"
  have pk: "distinct (map primaryKey ?t)"
    by (simp add: primaryKey_def sampleRow_def)
  have whole: "\<forall>r \<in> set ?t. nsec (CreatedAt r) = 0"
    by (simp add: sampleRow_def)
  have nopipe: "\<forall>r \<in> set ?t. CHR ''|'' \<notin> set (ResourceType r) \<and> CHR ''|'' \<notin> set (ResourceID r)"
    by (simp add: sampleRow_def)
  have ps: "0 < sint (2 :: 64 word)" "sint (2 :: 64 word) < 2 ^ 63 - 1" by simp_all
  have sorted: "orderDesc ?t = [sampleRow ''admin'' ''a1'' 9 0, sampleRow ''user'' ''u2'' 7 0,
      sampleRow ''user'' ''u1'' 7 0]"
    by (simp add: orderDesc_def key3_def timeKey_def sampleRow_def less_char_def less_eq_char_def)
  from C1_traversal [OF pk whole nopipe ps] pk ps show ?thesis
    by (simp only: sorted simp_thms)
qed

text \<open>
  The claim as stated, for every row set and every positive page size, fails in three
  ways. A row with \<^verbatim>\<open>|\<close> in its resource type ends the traversal with the invalid-format
  error at the second call. With creation times inside one second, the cursor carries the
  whole second only and the second call finds nothing below it, so a row is never
  returned. With the largest \<^verbatim>\<open>int\<close> as page size, \<^verbatim>\<open>pageSize + 1\<close> wraps around to a
  negative limit, which the store refuses.
\<close>

theorem C1_counterexample:
  "traverse (runQuery [sampleRow ''a|b'' ''x'' 5 0, sampleRow ''a'' ''y'' 4 0]) 1 [] []
     = Some (Inl InvalidTokenFormat)
   \<and> traverse (runQuery [sampleRow ''a'' ''x'' 5 500000000, sampleRow ''a'' ''y'' 5 200000000])
       1 [] []
     = Some (Inr [sampleRow ''a'' ''x'' 5 500000000])
   \<and> traverse (runQuery []) 9223372036854775807 [] [] = Some (Inl StoreQueryFailed)"
proof -
  have ps: "0 < sint (1 :: 64 word)" "sint (1 :: 64 word) < 2 ^ 63 - 1" by simp_all
  have n: "effectivePageSize 1 = 1" by (simp add: effectivePageSize_def)
  have first: "snd (GetPaginated (runQuery [a, b]) [] 1)
      = Inr \<lparr>Records = [a], NextContinuationToken = Some (tokenOf a)\<rparr>"
    if "key3 b < key3 a" for a b
    using page_first [OF ps, of "[a, b]"] by (simp add: n orderDesc_two [OF that] pageOf_def)
  have one: "traverse (runQuery [sampleRow ''a|b'' ''x'' 5 0, sampleRow ''a'' ''y'' 4 0]) 1 [] []
      = Some (Inl InvalidTokenFormat)"
  proof -
    let ?a = "sampleRow ''a|b'' ''x'' 5 0" and ?b = "sampleRow ''a'' ''y'' 4 0"
    have k: "key3 ?b < key3 ?a"
      by (simp add: key3_def timeKey_def sampleRow_def)
    have "decodeContinuationToken (tokenOf ?a) = Inl InvalidTokenFormat"
      unfolding tokenOf_def by (rule decode_encode_pipe) (simp add: sampleRow_def)
    then have "GetPaginated (runQuery [?a, ?b]) (tokenOf ?a) 1 = ([], Inl InvalidTokenFormat)"
      using tokenOf_not_Nil by (rule GetPaginated_invalid [rotated])
    then have "traverse (runQuery [?a, ?b]) 1 (tokenOf ?a) [?a] = Some (Inl InvalidTokenFormat)"
      by (subst traverse.simps) simp
    then show ?thesis
      by (subst traverse.simps) (simp add: first [OF k])
  qed
  have two: "traverse (runQuery [sampleRow ''a'' ''x'' 5 500000000, sampleRow ''a'' ''y'' 5 200000000])
       1 [] [] = Some (Inr [sampleRow ''a'' ''x'' 5 500000000])"
  proof -
    let ?a = "sampleRow ''a'' ''x'' 5 500000000" and ?b = "sampleRow ''a'' ''y'' 5 200000000"
    have k: "key3 ?b < key3 ?a"
      by (simp add: key3_def timeKey_def sampleRow_def)
    have d: "decodeContinuationToken (tokenOf ?a)
        = Inr (ResourceType ?a, ResourceID ?a, time_Unix (Unix (CreatedAt ?a)))"
      by (rule decode_tokenOf) (simp_all add: sampleRow_def)
    have "filter (\<lambda>r. key3 r < cursorKey (time_Unix (Unix (CreatedAt ?a))) (ResourceType ?a)
        (ResourceID ?a)) (orderDesc [?a, ?b]) = []"
      unfolding orderDesc_two [OF k]
      by (simp add: key3_def cursorKey_def timeKey_def sampleRow_def time_Unix_def Unix_def)
    then have "snd (GetPaginated (runQuery [?a, ?b]) (tokenOf ?a) 1)
        = Inr \<lparr>Records = [], NextContinuationToken = None\<rparr>"
      using page_after [OF ps tokenOf_not_Nil d, of "[?a, ?b]"] by (simp add: pageOf_def)
    then have "traverse (runQuery [?a, ?b]) 1 (tokenOf ?a) [?a] = Some (Inr [?a])"
      by (subst traverse.simps) simp
    then show ?thesis
      by (subst traverse.simps) (simp add: first [OF k])
  qed
  have "sint (9223372036854775807 + 1 :: 64 word) < 0" by simp
  then have "snd (GetPaginated (runQuery []) [] 9223372036854775807) = Inl StoreQueryFailed"
    by (simp add: GetPaginated_first Let_def runQuery_def)
  then have three: "traverse (runQuery []) 9223372036854775807 [] [] = Some (Inl StoreQueryFailed)"
    by (subst traverse.simps) simp
  from one two three show ?thesis by (simp only: simp_thms)
qed

end
